theory Spec2Isabelle
  imports Complex_Main
begin

section \<open>NumPy arrays\<close>

text \<open>
  The notebook works on two-dimensional float arrays. An array carries its shape
  (a \<open>0 \<times> n\<close> array is not a \<open>0 \<times> m\<close> array) and its rows. A float that is
  finite is modelled as an exact real: rounding and overflow are outside the model.
\<close>

datatype 'a ndarray = NDArray (nrows: nat) (ncols: nat) (rows: "'a list list")

text \<open>Exceptions: those NumPy, SciPy and Python raise, and those the specification names.\<close>

datatype error =
    ValueError
  | IndexError
  | LinAlgError
  | AttributeError
  | InvalidWindowError
  | UnknownSymbolError
  | SingularMarginalError
  | InvalidRankError

definition wf_array :: "'a ndarray \<Rightarrow> bool" where
  "wf_array A \<longleftrightarrow> length (rows A) = nrows A \<and> list_all (\<lambda>r. length r = ncols A) (rows A)"

definition entry :: "'a ndarray \<Rightarrow> nat \<Rightarrow> nat \<Rightarrow> 'a" where
  "entry A i j = rows A ! i ! j"

definition array_of :: "nat \<Rightarrow> nat \<Rightarrow> (nat \<Rightarrow> nat \<Rightarrow> 'a) \<Rightarrow> 'a ndarray" where
  "array_of r c f = NDArray r c (map (\<lambda>i. map (f i) [0..<c]) [0..<r])"

definition zeros :: "nat \<Rightarrow> nat \<Rightarrow> real ndarray" where
  "zeros r c = array_of r c (\<lambda>i j. 0)"

definition eye :: "nat \<Rightarrow> real ndarray" where
  "eye n = array_of n n (\<lambda>i j. if i = j then 1 else 0)"

text \<open>\<open>A.T\<close>\<close>

definition transpose_np :: "'a ndarray \<Rightarrow> 'a ndarray" where
  "transpose_np A = array_of (ncols A) (nrows A) (\<lambda>i j. entry A j i)"

text \<open>\<open>A @ B\<close>: NumPy raises ValueError when the inner dimensions differ.\<close>

definition matmul :: "'a::{monoid_add,times} ndarray \<Rightarrow> 'a ndarray \<Rightarrow> error + 'a ndarray" where
  "matmul A B =
     (if ncols A = nrows B
      then Inr (array_of (nrows A) (ncols B) (\<lambda>i j. \<Sum>k\<leftarrow>[0..<ncols A]. entry A i k * entry B k j))
      else Inl ValueError)"

text \<open>\<open>np.diag(v)\<close> of a one-dimensional \<open>v\<close>\<close>

definition diag :: "'a::zero list \<Rightarrow> 'a ndarray" where
  "diag v = array_of (length v) (length v) (\<lambda>i j. if i = j then v ! i else 0)"

text \<open>\<open>A.sum(axis=1)\<close>: the sum of each row.\<close>

definition sum_axis1 :: "real ndarray \<Rightarrow> real list" where
  "sum_axis1 A = map sum_list (rows A)"

text \<open>
  A Python slice \<open>xs[:k]\<close>: the first \<open>k\<close> items, all of them when \<open>k\<close> exceeds the
  length, and all but the last \<open>-k\<close> when \<open>k\<close> is negative.
\<close>

definition slice_stop :: "int \<Rightarrow> nat \<Rightarrow> nat" where
  "slice_stop k n = (if 0 \<le> k then min (nat k) n else n - nat (- k))"

definition slice_upto :: "int \<Rightarrow> 'a list \<Rightarrow> 'a list" where
  "slice_upto k xs = take (slice_stop k (length xs)) xs"

text \<open>\<open>A[:, :k]\<close>\<close>

definition cols_upto :: "int \<Rightarrow> 'a ndarray \<Rightarrow> 'a ndarray" where
  "cols_upto k A = NDArray (nrows A) (slice_stop k (ncols A)) (map (slice_upto k) (rows A))"

text \<open>\<open>A[:k]\<close>\<close>

definition rows_upto :: "int \<Rightarrow> 'a ndarray \<Rightarrow> 'a ndarray" where
  "rows_upto k A = NDArray (slice_stop k (nrows A)) (ncols A) (slice_upto k (rows A))"

subsection \<open>Floats that are not finite\<close>

text \<open>
  \<open>p_counts**(-1)\<close> on a float array raises nothing at a zero: NumPy warns and stores
  \<open>inf\<close>. A sum or a product with an operand that is \<open>inf\<close> or \<open>nan\<close> is \<open>inf\<close>
  or \<open>nan\<close> again (\<open>inf * 0 = nan\<close>), so one value stands for all floats that are not
  finite.
\<close>

datatype npfloat = Finite real | NonFinite

instantiation npfloat :: "{monoid_add,times}"
begin

definition zero_npfloat :: npfloat where
  "zero_npfloat = Finite 0"

fun plus_npfloat :: "npfloat \<Rightarrow> npfloat \<Rightarrow> npfloat" where
  "plus_npfloat (Finite a) (Finite b) = Finite (a + b)"
| "plus_npfloat _ _ = NonFinite"

fun times_npfloat :: "npfloat \<Rightarrow> npfloat \<Rightarrow> npfloat" where
  "times_npfloat (Finite a) (Finite b) = Finite (a * b)"
| "times_npfloat _ _ = NonFinite"

instance
proof
  fix a b c :: npfloat
  show "a + b + c = a + (b + c)"
    by (cases a; cases b; cases c) simp_all
  show "0 + a = a"
    by (cases a) (simp_all add: zero_npfloat_def)
  show "a + 0 = a"
    by (cases a) (simp_all add: zero_npfloat_def)
qed

end

text \<open>\<open>x**(-1)\<close> on a float\<close>

definition reciprocal :: "real \<Rightarrow> npfloat" where
  "reciprocal x = (if x = 0 then NonFinite else Finite (1 / x))"

definition finite_array :: "real ndarray \<Rightarrow> npfloat ndarray" where
  "finite_array A = NDArray (nrows A) (ncols A) (map (map Finite) (rows A))"

section \<open>The rank bottleneck: \<open>SVDRegressor\<close>\<close>

text \<open>
  \<open>scipy.linalg.svd\<close> and \<open>sklearn.linear_model.LinearRegression\<close> are library code:
  they are parameters of the model. What \<open>svd\<close> returns for an \<open>M \<times> N\<close> array is a
  triple \<open>(U, s, Vh)\<close> of an \<open>M \<times> M\<close> array, \<open>min M N\<close> singular values and an
  \<open>N \<times> N\<close> array.
\<close>

type_synonym svd_result = "real ndarray \<times> real list \<times> real ndarray"

text \<open>
  The expression of \<open>SVDRegressor.fit\<close>:
  \<open>U[:,:self.n_components] @ np.diag(s[:self.n_components]) @ (VT[:self.n_components])\<close>,
  evaluated left to right.
\<close>

definition bottleneck :: "real ndarray \<Rightarrow> real list \<Rightarrow> real ndarray \<Rightarrow> int \<Rightarrow> error + real ndarray" where
  "bottleneck U s VT n =
     (case matmul (cols_upto n U) (diag (slice_upto n s)) of
        Inl e \<Rightarrow> Inl e
      | Inr W \<Rightarrow> matmul W (rows_upto n VT))"

text \<open>
  The estimator object: \<open>n_components\<close>, and the attributes \<open>regressor_.coef_.T\<close>
  and \<open>bottleneck_\<close> that exist only once \<open>fit\<close> has run.
\<close>

datatype SVDRegressor =
  SVDRegressor (n_components: int) (coef_T: "real ndarray option") (fitted_bottleneck: "real ndarray option")

definition fit ::
  "(real ndarray \<Rightarrow> real ndarray \<Rightarrow> error + real ndarray) \<Rightarrow> (real ndarray \<Rightarrow> error + svd_result) \<Rightarrow>
   SVDRegressor \<Rightarrow> real ndarray \<Rightarrow> real ndarray \<Rightarrow> error + SVDRegressor" where
  "fit linreg svd self X y =
     (case linreg X y of
        Inl e \<Rightarrow> Inl e
      | Inr C \<Rightarrow>
          (case svd C of
             Inl e \<Rightarrow> Inl e
           | Inr (U, s, VT) \<Rightarrow>
               (case bottleneck U s VT (n_components self) of
                  Inl e \<Rightarrow> Inl e
                | Inr B \<Rightarrow> Inr (SVDRegressor (n_components self) (Some C) (Some B)))))"

definition predict :: "SVDRegressor \<Rightarrow> real ndarray \<Rightarrow> error + real ndarray" where
  "predict self X =
     (case fitted_bottleneck self of
        None \<Rightarrow> Inl AttributeError
      | Some B \<Rightarrow> matmul X B)"

text \<open>
  The contract of a singular value decomposition of \<open>A\<close>: the shapes above, orthogonal
  \<open>U\<close> and \<open>Vh\<close>, singular values that are non-negative and in descending order, and
  \<open>A = U \<Sigma> Vh\<close> with \<open>\<Sigma>\<close> the rectangular diagonal matrix of \<open>s\<close>.
\<close>

definition svd_reconstruct :: "real ndarray \<Rightarrow> real list \<Rightarrow> real ndarray \<Rightarrow> real ndarray" where
  "svd_reconstruct U s VT =
     array_of (nrows U) (ncols VT) (\<lambda>i j. \<Sum>l\<leftarrow>[0..<length s]. entry U i l * (s ! l) * entry VT l j)"

definition svd_shapes :: "nat \<Rightarrow> nat \<Rightarrow> svd_result \<Rightarrow> bool" where
  "svd_shapes M N r \<longleftrightarrow>
     (case r of (U, s, VT) \<Rightarrow>
        wf_array U \<and> wf_array VT \<and> nrows U = M \<and> ncols U = M \<and>
        nrows VT = N \<and> ncols VT = N \<and> length s = min M N)"

definition svd_contract :: "real ndarray \<Rightarrow> svd_result \<Rightarrow> bool" where
  "svd_contract A r \<longleftrightarrow>
     (case r of (U, s, VT) \<Rightarrow>
        svd_shapes (nrows A) (ncols A) r \<and>
        matmul (transpose_np U) U = Inr (eye (nrows A)) \<and>
        matmul VT (transpose_np VT) = Inr (eye (ncols A)) \<and>
        sorted (rev s) \<and> list_all (\<lambda>x. 0 \<le> x) s \<and>
        svd_reconstruct U s VT = A)"

text \<open>
  A matrix of rank at most \<open>k\<close>: it is a product of a matrix with \<open>k\<close> columns and a
  matrix with \<open>k\<close> rows.
\<close>

definition rank_at_most :: "nat \<Rightarrow> real ndarray \<Rightarrow> bool" where
  "rank_at_most k D \<longleftrightarrow>
     (\<exists>A B. nrows A = nrows D \<and> ncols A = k \<and> nrows B = k \<and> ncols B = ncols D \<and>
        matmul A B = Inr D)"

text \<open>
  Example arrays: a \<open>2 \<times> 1\<close> and a \<open>2 \<times> 2\<close> coefficient matrix with their
  decompositions, and the rank-one truncation of the second.
\<close>

definition U0 :: "real ndarray" where "U0 = NDArray 2 2 [[1, 0], [0, 1]]"
definition VT0 :: "real ndarray" where "VT0 = NDArray 1 1 [[1]]"
definition C0 :: "real ndarray" where "C0 = NDArray 2 1 [[1], [0]]"
definition C1 :: "real ndarray" where "C1 = NDArray 2 2 [[0, 2], [1, 0]]"
definition U1 :: "real ndarray" where "U1 = NDArray 2 2 [[1, 0], [0, 1]]"
definition VT1 :: "real ndarray" where "VT1 = NDArray 2 2 [[0, 1], [1, 0]]"
definition C2 :: "real ndarray" where "C2 = NDArray 2 2 [[0, 2], [0, 0]]"

section \<open>Windows, pasts and futures\<close>

text \<open>\<open>np.arange(a, b)\<close>; \<open>np.arange(b)\<close> is \<open>arange 0 b\<close>.\<close>

definition arange :: "nat \<Rightarrow> nat \<Rightarrow> nat list" where
  "arange a b = [a..<b]"

text \<open>
  The configuration of the notebook: \<open>window_shape=(2*L+1,)\<close>, and the two one-hot
  factors with \<open>take = np.arange(L+1)\<close> and \<open>take = np.arange(L+1,2*L+1)\<close>.
\<close>

definition window_shape :: "nat \<Rightarrow> nat" where
  "window_shape L = 2 * L + 1"

definition past_take :: "nat \<Rightarrow> nat list" where
  "past_take L = arange 0 (L + 1)"

definition fut_take :: "nat \<Rightarrow> nat list" where
  "fut_take L = arange (L + 1) (2 * L + 1)"

text \<open>Selecting the items of a window at given indices; an index out of range raises IndexError.\<close>

definition take_np :: "nat list \<Rightarrow> 'a list \<Rightarrow> error + 'a list" where
  "take_np idx w =
     (if list_all (\<lambda>i. i < length w) idx then Inr (map (\<lambda>i. w ! i) idx) else Inl IndexError)"

definition past_of :: "nat \<Rightarrow> 'a list \<Rightarrow> error + 'a list" where
  "past_of L w = take_np (past_take L) w"

definition future_of :: "nat \<Rightarrow> 'a list \<Rightarrow> error + 'a list" where
  "future_of L w = take_np (fut_take L) w"

text \<open>
  Modelled from the spec: the Windower. The notebook calls
  \<open>ruckus.convolution.ConvolutionalRKHS\<close>, whose code is not in the repository.
  Section 4.1: for a sequence of length \<open>N\<close>, \<open>N - 2L\<close> windows of length \<open>2L+1\<close>
  at offsets \<open>0..N-2L-1\<close>, unit stride, no padding; InvalidWindowError when
  \<open>N \<le> 2L\<close>.
\<close>

definition windower :: "nat \<Rightarrow> 'a list \<Rightarrow> error + 'a list list" where
  "windower L xs =
     (if length xs \<le> 2 * L then Inl InvalidWindowError
      else Inr (map (\<lambda>t. take (window_shape L) (drop t xs)) [0..<length xs - 2 * L]))"

section \<open>One-hot encoding\<close>

text \<open>
  Modelled from the spec: the CategoricalOneHotEncoder. The notebook calls
  \<open>ruckus.OneHotRKHS\<close>, whose code is not in the repository. Section 4.2: \<open>fit\<close>
  discovers the distinct sub-words in first-seen order and freezes them as the
  alphabet; \<open>transform\<close> maps each sub-word to a one-hot row against the alphabet and
  fails with UnknownSymbolError on a sub-word that is not in it.
\<close>

fun discover :: "'a list \<Rightarrow> 'a list \<Rightarrow> 'a list" where
  "discover alphabet [] = alphabet"
| "discover alphabet (w # ws) =
     (if w \<in> set alphabet then discover alphabet ws else discover (alphabet @ [w]) ws)"

definition fit_alphabet :: "'a list \<Rightarrow> 'a list" where
  "fit_alphabet ws = discover [] ws"

fun index_of :: "'a list \<Rightarrow> 'a \<Rightarrow> nat option" where
  "index_of [] w = None"
| "index_of (a # as) w = (if a = w then Some 0 else map_option Suc (index_of as w))"

definition one_hot :: "nat \<Rightarrow> nat \<Rightarrow> real list" where
  "one_hot n i = map (\<lambda>j. if j = i then 1 else 0) [0..<n]"

fun transform_rows :: "'a list \<Rightarrow> 'a list \<Rightarrow> error + real list list" where
  "transform_rows alphabet [] = Inr []"
| "transform_rows alphabet (w # ws) =
     (case index_of alphabet w of
        None \<Rightarrow> Inl UnknownSymbolError
      | Some i \<Rightarrow>
          (case transform_rows alphabet ws of
             Inl e \<Rightarrow> Inl e
           | Inr rs \<Rightarrow> Inr (one_hot (length alphabet) i # rs)))"

definition transform :: "'a list \<Rightarrow> 'a list \<Rightarrow> error + real ndarray" where
  "transform alphabet ws =
     (case transform_rows alphabet ws of
        Inl e \<Rightarrow> Inl e
      | Inr rs \<Rightarrow> Inr (NDArray (length ws) (length alphabet) rs))"

text \<open>A feature matrix with one-hot rows, and one in which every word of the alphabet occurs.\<close>

definition one_hot_row :: "real list \<Rightarrow> bool" where
  "one_hot_row r \<longleftrightarrow> list_ex (\<lambda>i. r = one_hot (length r) i) [0..<length r]"

definition one_hot_array :: "real ndarray \<Rightarrow> bool" where
  "one_hot_array A \<longleftrightarrow> wf_array A \<and> list_all one_hot_row (rows A)"

definition all_words_observed :: "real ndarray \<Rightarrow> bool" where
  "all_words_observed A \<longleftrightarrow> list_all (\<lambda>i. list_ex (\<lambda>r. r ! i = 1) (rows A)) [0..<ncols A]"

section \<open>Counting with one-hot vectors\<close>

text \<open>\<open>joint_counts = past_vecs.T@fut_vecs\<close>\<close>

definition joint_counts :: "real ndarray \<Rightarrow> real ndarray \<Rightarrow> error + real ndarray" where
  "joint_counts past_vecs fut_vecs = matmul (transpose_np past_vecs) fut_vecs"

text \<open>
  \<open>p_counts = joint_counts.sum(axis=1)\<close> and
  \<open>morphs = (np.diag((p_counts**(-1)))@joint_counts)\<close>
\<close>

definition morphs :: "real ndarray \<Rightarrow> real ndarray \<Rightarrow> error + npfloat ndarray" where
  "morphs past_vecs fut_vecs =
     (case joint_counts past_vecs fut_vecs of
        Inl e \<Rightarrow> Inl e
      | Inr J \<Rightarrow>
          (let p_counts = sum_axis1 J
           in matmul (diag (map reciprocal p_counts)) (finite_array J)))"

text \<open>
  \<open>past_squared = past_vecs.T@past_vecs\<close> and
  \<open>new_morphs = inv(past_squared)@joint_counts\<close>. \<open>scipy.linalg.inv\<close> is library
  code, a parameter of the model.
\<close>

definition past_squared :: "real ndarray \<Rightarrow> error + real ndarray" where
  "past_squared past_vecs = matmul (transpose_np past_vecs) past_vecs"

definition new_morphs ::
  "(real ndarray \<Rightarrow> error + real ndarray) \<Rightarrow> real ndarray \<Rightarrow> real ndarray \<Rightarrow> error + real ndarray" where
  "new_morphs linalg_inv past_vecs fut_vecs =
     (case joint_counts past_vecs fut_vecs of
        Inl e \<Rightarrow> Inl e
      | Inr J \<Rightarrow>
          (case past_squared past_vecs of
             Inl e \<Rightarrow> Inl e
           | Inr S \<Rightarrow>
               (case linalg_inv S of
                  Inl e \<Rightarrow> Inl e
                | Inr B \<Rightarrow> matmul B J)))"

text \<open>
  The contract of \<open>inv\<close> on a square array \<open>A\<close>: it returns the inverse of \<open>A\<close>, and
  raises LinAlgError (singular matrix) when \<open>A\<close> has none.
\<close>

definition is_inverse :: "real ndarray \<Rightarrow> real ndarray \<Rightarrow> bool" where
  "is_inverse A B \<longleftrightarrow>
     wf_array B \<and> nrows B = nrows A \<and> ncols B = nrows A \<and>
     matmul B A = Inr (eye (nrows A)) \<and> matmul A B = Inr (eye (nrows A))"

definition inv_contract :: "(real ndarray \<Rightarrow> error + real ndarray) \<Rightarrow> real ndarray \<Rightarrow> bool" where
  "inv_contract linalg_inv A \<longleftrightarrow>
     (case linalg_inv A of
        Inr B \<Rightarrow> is_inverse A B
      | Inl e \<Rightarrow> e = LinAlgError \<and> \<not> (\<exists>B. is_inverse A B))"

text \<open>An inverse for diagonal arrays, for the examples.\<close>

definition inv_diagonal :: "real ndarray \<Rightarrow> error + real ndarray" where
  "inv_diagonal A =
     (if list_all (\<lambda>i. entry A i i \<noteq> 0) [0..<nrows A]
      then Inr (diag (map (\<lambda>i. 1 / entry A i i) [0..<nrows A]))
      else Inl LinAlgError)"

text \<open>
  The regression route: \<open>LinearRegression(fit_intercept=False)\<close> is library code. Its
  contract, in the words of the specification: \<open>regressor.coef_.T\<close> is a matrix \<open>A\<close>
  that minimises the squared error between the future features and the past features
  times \<open>A\<close>, with no intercept.
\<close>

definition sq_err :: "real ndarray \<Rightarrow> real ndarray \<Rightarrow> real ndarray \<Rightarrow> real" where
  "sq_err X Y A =
     (\<Sum>t\<leftarrow>[0..<nrows X]. \<Sum>j\<leftarrow>[0..<ncols Y].
        (entry Y t j - (\<Sum>k\<leftarrow>[0..<ncols X]. entry X t k * entry A k j))\<^sup>2)"

definition coef_shape :: "real ndarray \<Rightarrow> real ndarray \<Rightarrow> real ndarray \<Rightarrow> bool" where
  "coef_shape X Y A \<longleftrightarrow> wf_array A \<and> nrows A = ncols X \<and> ncols A = ncols Y"

definition least_squares :: "real ndarray \<Rightarrow> real ndarray \<Rightarrow> real ndarray \<Rightarrow> bool" where
  "least_squares X Y A \<longleftrightarrow>
     coef_shape X Y A \<and> (\<forall>B. coef_shape X Y B \<longrightarrow> sq_err X Y A \<le> sq_err X Y B)"

text \<open>Example feature matrices: three windows; and one window with an unobserved past word.\<close>

definition P_ex :: "real ndarray" where "P_ex = NDArray 3 2 [[1, 0], [0, 1], [1, 0]]"
definition F_ex :: "real ndarray" where "F_ex = NDArray 3 2 [[1, 0], [1, 0], [0, 1]]"
definition M_ex :: "real ndarray" where "M_ex = NDArray 2 2 [[1 / 2, 1 / 2], [1, 0]]"
definition P_unseen :: "real ndarray" where "P_unseen = NDArray 1 2 [[1, 0]]"
definition F_one :: "real ndarray" where "F_one = NDArray 1 1 [[1]]"

text \<open>
  Entry by entry: the joint count of past word \<open>i\<close> and future word \<open>j\<close>, the
  marginal count of past word \<open>i\<close> as \<open>p_counts\<close> computes it, and the number of
  windows with past word \<open>i\<close>.
\<close>

definition joint :: "real ndarray \<Rightarrow> real ndarray \<Rightarrow> nat \<Rightarrow> nat \<Rightarrow> real" where
  "joint P F i j = (\<Sum>t<nrows P. entry P t i * entry F t j)"

definition marginal :: "real ndarray \<Rightarrow> real ndarray \<Rightarrow> nat \<Rightarrow> real" where
  "marginal P F i = (\<Sum>j<ncols F. joint P F i j)"

definition occurrences :: "real ndarray \<Rightarrow> nat \<Rightarrow> real" where
  "occurrences P i = (\<Sum>t<nrows P. entry P t i)"

text \<open>The column that holds the \<open>1\<close> of row \<open>t\<close> of a one-hot matrix.\<close>

definition hot_column :: "real ndarray \<Rightarrow> nat \<Rightarrow> nat" where
  "hot_column A t = (case index_of (rows A ! t) 1 of Some c \<Rightarrow> c | None \<Rightarrow> 0)"

text \<open>The closed form, entry by entry: the conditional frequency.\<close>

definition frequency :: "real ndarray \<Rightarrow> real ndarray \<Rightarrow> nat \<Rightarrow> nat \<Rightarrow> real" where
  "frequency P F i j = joint P F i j / occurrences P i"

definition S_ex :: "real ndarray" where "S_ex = NDArray 2 2 [[2, 0], [0, 1]]"

section \<open>Cross-validated rank selection\<close>

text \<open>
  Modelled from the spec: the CrossValidatedRankSelector. The notebook calls
  \<open>GridSearchCV\<close> of scikit-learn on a \<open>ruckus.cv_wrappers.ConditionalMapWrapper\<close>,
  with \<open>cv=5\<close>, and reads \<open>mean_test_score\<close> and \<open>std_test_score\<close>; neither code
  is in the repository. Section 4.6: the window rows are split into \<open>F\<close> folds by row
  index; for each fold the estimator and the rank bottleneck are fitted on the training
  rows, and the loss is the mean squared error between the held-out future rows and the
  held-out past rows times the bottleneck; the result for a rank is the mean and the
  standard deviation of the loss over the folds. The folds are the standard ones:
  consecutive blocks of rows, the first \<open>n mod F\<close> of them one row longer.
\<close>

definition fold_sizes :: "nat \<Rightarrow> nat \<Rightarrow> nat list" where
  "fold_sizes n F = map (\<lambda>i. n div F + (if i < n mod F then 1 else 0)) [0..<F]"














section \<open>Arrays: basic facts\<close>

lemma nrows_array_of [simp]: "nrows (array_of r c f) = r"
  by (simp add: array_of_def)

lemma ncols_array_of [simp]: "ncols (array_of r c f) = c"
  by (simp add: array_of_def)

lemma wf_array_of [simp]: "wf_array (array_of r c f)"
  by (simp add: wf_array_def array_of_def list_all_iff)

lemma entry_array_of [simp]: "i < r \<Longrightarrow> j < c \<Longrightarrow> entry (array_of r c f) i j = f i j"
  by (simp add: entry_def array_of_def)

lemma entry_fun: "entry A = (\<lambda>i j. rows A ! i ! j)"
  by (intro ext) (simp add: entry_def)

lemma array_of_cong:
  assumes "\<And>i j. i < r \<Longrightarrow> j < c \<Longrightarrow> f i j = g i j"
  shows "array_of r c f = array_of r c g"
  using assms by (simp add: array_of_def)

lemma array_of_entry:
  assumes "wf_array A"
  shows "array_of (nrows A) (ncols A) (entry A) = A"
proof -
  obtain r c xs where A: "A = NDArray r c xs" by (cases A)
  from assms A have len: "length xs = r" and row: "\<And>i. i < r \<Longrightarrow> length (xs ! i) = c"
    by (auto simp: wf_array_def list_all_length)
  have "map (\<lambda>i. map (\<lambda>j. xs ! i ! j) [0..<c]) [0..<r] = xs"
  proof (rule nth_equalityI)
    show "length (map (\<lambda>i. map (\<lambda>j. xs ! i ! j) [0..<c]) [0..<r]) = length xs"
      by (simp add: len)
  next
    fix i assume "i < length (map (\<lambda>i. map (\<lambda>j. xs ! i ! j) [0..<c]) [0..<r])"
    then have i: "i < r" by simp
    have "map (\<lambda>j. xs ! i ! j) [0..<c] = xs ! i"
      using row [OF i] by (intro nth_equalityI) simp_all
    with i show "map (\<lambda>i. map (\<lambda>j. xs ! i ! j) [0..<c]) [0..<r] ! i = xs ! i"
      by simp
  qed
  then show ?thesis
    by (simp add: A array_of_def entry_fun)
qed

lemma cols_upto_array:
  assumes "wf_array A"
  shows "cols_upto k A = array_of (nrows A) (slice_stop k (ncols A)) (entry A)"
proof -
  obtain r c xs where A: "A = NDArray r c xs" by (cases A)
  from assms A have len: "length xs = r" and row: "\<And>i. i < r \<Longrightarrow> length (xs ! i) = c"
    by (auto simp: wf_array_def list_all_length)
  have stop: "slice_stop k c \<le> c"
    by (simp add: slice_stop_def)
  have "map (slice_upto k) xs = map (\<lambda>i. map (\<lambda>j. xs ! i ! j) [0..<slice_stop k c]) [0..<r]"
  proof (rule nth_equalityI)
    show "length (map (slice_upto k) xs) =
        length (map (\<lambda>i. map (\<lambda>j. xs ! i ! j) [0..<slice_stop k c]) [0..<r])"
      by (simp add: len)
  next
    fix i assume "i < length (map (slice_upto k) xs)"
    then have i: "i < r" by (simp add: len)
    have "take (slice_stop k c) (xs ! i) = map (\<lambda>j. xs ! i ! j) [0..<slice_stop k c]"
      using row [OF i] stop by (intro nth_equalityI) simp_all
    with i len row [OF i]
    show "map (slice_upto k) xs ! i =
        map (\<lambda>i. map (\<lambda>j. xs ! i ! j) [0..<slice_stop k c]) [0..<r] ! i"
      by (simp add: slice_upto_def)
  qed
  then show ?thesis
    by (simp add: A cols_upto_def array_of_def entry_fun)
qed

lemma rows_upto_array:
  assumes "wf_array A"
  shows "rows_upto k A = array_of (slice_stop k (nrows A)) (ncols A) (entry A)"
proof -
  obtain r c xs where A: "A = NDArray r c xs" by (cases A)
  from assms A have len: "length xs = r" and row: "\<And>i. i < r \<Longrightarrow> length (xs ! i) = c"
    by (auto simp: wf_array_def list_all_length)
  have stop: "slice_stop k r \<le> r"
    by (simp add: slice_stop_def)
  have "take (slice_stop k r) xs = map (\<lambda>i. map (\<lambda>j. xs ! i ! j) [0..<c]) [0..<slice_stop k r]"
  proof (rule nth_equalityI)
    show "length (take (slice_stop k r) xs) =
        length (map (\<lambda>i. map (\<lambda>j. xs ! i ! j) [0..<c]) [0..<slice_stop k r])"
      using stop by (simp add: len)
  next
    fix i assume "i < length (take (slice_stop k r) xs)"
    then have i: "i < slice_stop k r" by simp
    with stop have ir: "i < r" by simp
    have "xs ! i = map (\<lambda>j. xs ! i ! j) [0..<c]"
      using row [OF ir] by (intro nth_equalityI) simp_all
    with i show "take (slice_stop k r) xs ! i =
        map (\<lambda>i. map (\<lambda>j. xs ! i ! j) [0..<c]) [0..<slice_stop k r] ! i"
      by simp
  qed
  then show ?thesis
    by (simp add: A rows_upto_def array_of_def entry_fun slice_upto_def len)
qed

lemma sum_list_delta_right:
  fixes f :: "nat \<Rightarrow> real"
  assumes "l < n"
  shows "(\<Sum>m\<leftarrow>[0..<n]. f m * (if m = l then v else 0)) = f l * v"
proof -
  have "(\<Sum>m\<leftarrow>[0..<n]. f m * (if m = l then v else 0)) =
      (\<Sum>m\<in>{0..<n}. if m = l then f m * v else 0)"
    by (simp add: interv_sum_list_conv_sum_set_nat if_distrib cong: if_cong)
  also have "\<dots> = f l * v"
    using assms by simp
  finally show ?thesis .
qed

section \<open>The rank bottleneck: facts\<close>

lemma slice_stop_le [simp]: "slice_stop k n \<le> n"
  by (simp add: slice_stop_def)

lemma length_slice_upto [simp]: "length (slice_upto k xs) = slice_stop k (length xs)"
  by (simp add: slice_upto_def)

lemma nth_slice_upto [simp]: "i < slice_stop k (length xs) \<Longrightarrow> slice_upto k xs ! i = xs ! i"
  by (simp add: slice_upto_def)

lemma bottleneck_eval:
  assumes "svd_shapes M N (U, s, VT)"
  shows "bottleneck U s VT n =
     (if slice_stop n M = slice_stop n (min M N) \<and> slice_stop n N = slice_stop n (min M N)
      then Inr (array_of M N
        (\<lambda>i j. \<Sum>l\<leftarrow>[0..<slice_stop n (min M N)]. entry U i l * (s ! l) * entry VT l j))
      else Inl ValueError)"
proof -
  from assms have U: "wf_array U" "nrows U = M" "ncols U = M"
    and V: "wf_array VT" "nrows VT = N" "ncols VT = N" and s0: "length s = min M N"
    by (simp_all add: svd_shapes_def)
  define K where "K = min M N"
  with s0 have s: "length s = K" by simp
  let ?k = "slice_stop n K"
  have first: "matmul (cols_upto n U) (diag (slice_upto n s)) =
      (if slice_stop n M = ?k
       then Inr (array_of M ?k (\<lambda>i l. entry U i l * (s ! l))) else Inl ValueError)"
  proof (cases "slice_stop n M = ?k")
    case True
    have "array_of M ?k (\<lambda>i j. \<Sum>m\<leftarrow>[0..<?k].
            entry (array_of M ?k (entry U)) i m *
            entry (array_of ?k ?k (\<lambda>i j. if i = j then slice_upto n s ! i else 0)) m j) =
          array_of M ?k (\<lambda>i l. entry U i l * (s ! l))"
    proof (rule array_of_cong)
      fix i j assume i: "i < M" and j: "j < ?k"
      have "(\<Sum>m\<leftarrow>[0..<?k]. entry (array_of M ?k (entry U)) i m *
            entry (array_of ?k ?k (\<lambda>i j. if i = j then slice_upto n s ! i else 0)) m j) =
          (\<Sum>m\<leftarrow>[0..<?k]. entry U i m * (if m = j then s ! j else 0))"
        using i j s by (intro arg_cong [where f = sum_list] map_cong refl) simp
      also have "\<dots> = entry U i j * (s ! j)"
        using j by (rule sum_list_delta_right)
      finally show "(\<Sum>m\<leftarrow>[0..<?k]. entry (array_of M ?k (entry U)) i m *
            entry (array_of ?k ?k (\<lambda>i j. if i = j then slice_upto n s ! i else 0)) m j) =
          entry U i j * (s ! j)" .
    qed
    with True show ?thesis
      by (simp add: matmul_def cols_upto_array U diag_def s)
  next
    case False
    then show ?thesis
      by (simp add: matmul_def cols_upto_array U diag_def s)
  qed
  have "bottleneck U s VT n =
     (if slice_stop n M = ?k \<and> slice_stop n N = ?k
      then Inr (array_of M N
        (\<lambda>i j. \<Sum>l\<leftarrow>[0..<?k]. entry U i l * (s ! l) * entry VT l j))
      else Inl ValueError)"
  proof (cases "slice_stop n M = ?k")
    case False
    then show ?thesis by (simp add: bottleneck_def first)
  next
    case True
    show ?thesis
    proof (cases "slice_stop n N = ?k")
      case False
      with True show ?thesis
        unfolding bottleneck_def first by (simp add: matmul_def rows_upto_array V)
    next
      case eq: True
      have "array_of M N (\<lambda>i j. \<Sum>l\<leftarrow>[0..<?k].
              entry (array_of M ?k (\<lambda>i l. entry U i l * (s ! l))) i l *
              entry (array_of ?k N (entry VT)) l j) =
            array_of M N (\<lambda>i j. \<Sum>l\<leftarrow>[0..<?k]. entry U i l * (s ! l) * entry VT l j)"
        by (intro array_of_cong arg_cong [where f = sum_list] map_cong refl) simp
      with True eq show ?thesis
        unfolding bottleneck_def first by (simp add: matmul_def rows_upto_array V)
    qed
  qed
  then show ?thesis
    by (simp only: K_def)
qed

lemma slice_stop_nonneg: "0 \<le> k \<Longrightarrow> slice_stop k n = min (nat k) n"
  by (simp add: slice_stop_def)

lemma matmul_zeros:
  assumes "ncols X = M"
  shows "matmul X (zeros M N) = Inr (zeros (nrows X) N)"
proof -
  have "array_of (nrows X) N (\<lambda>i j. \<Sum>k\<leftarrow>[0..<M]. entry X i k * entry (array_of M N (\<lambda>i j. 0)) k j) =
      array_of (nrows X) N (\<lambda>i j. 0)"
  proof (rule array_of_cong)
    fix i j assume "i < nrows X" and j: "j < N"
    have "(\<Sum>k\<leftarrow>[0..<M]. entry X i k * entry (array_of M N (\<lambda>i j. 0)) k j) =
        (\<Sum>k\<leftarrow>[0..<M]. 0)"
      using j by (intro arg_cong [where f = sum_list] map_cong refl) simp
    then show "(\<Sum>k\<leftarrow>[0..<M]. entry X i k * entry (array_of M N (\<lambda>i j. 0)) k j) = 0"
      by simp
  qed
  with assms show ?thesis
    by (simp add: matmul_def zeros_def)
qed

lemma bottleneck_zero:
  assumes "svd_shapes M N (U, s, VT)"
  shows "bottleneck U s VT 0 = Inr (zeros M N)"
  by (simp add: bottleneck_eval [OF assms] slice_stop_def zeros_def)

lemma bottleneck_full:
  assumes "svd_shapes M N (U, s, VT)" and "int (min M N) \<le> k" and "k \<le> int (min M N) \<or> M = N"
  shows "bottleneck U s VT k = Inr (svd_reconstruct U s VT)"
proof -
  from assms(1) have sh: "nrows U = M" "ncols VT = N" "length s = min M N"
    by (simp_all add: svd_shapes_def)
  from assms(2) have k: "0 \<le> k" "min M N \<le> nat k" by simp_all
  from assms(2,3) have "min (nat k) M = min M N \<and> min (nat k) N = min M N"
    by auto
  with k show ?thesis
    by (simp add: bottleneck_eval [OF assms(1)] slice_stop_nonneg svd_reconstruct_def sh)
qed

lemma bottleneck_beyond:
  assumes "svd_shapes M N (U, s, VT)" and "int (min M N) < k" and "M \<noteq> N"
  shows "bottleneck U s VT k = Inl ValueError"
proof -
  from assms(2) have k: "0 \<le> k" "min M N < nat k" by simp_all
  with assms(3) have "\<not> (min (nat k) M = min M N \<and> min (nat k) N = min M N)"
    by auto
  with k show ?thesis
    by (simp add: bottleneck_eval [OF assms(1)] slice_stop_nonneg)
qed

lemma bottleneck_truncated:
  assumes "svd_shapes M N (U, s, VT)" and "0 \<le> k" and "k \<le> int (min M N)"
  shows "bottleneck U s VT k =
    Inr (array_of M N (\<lambda>i j. \<Sum>l\<leftarrow>[0..<nat k]. entry U i l * (s ! l) * entry VT l j))"
proof -
  from assms(2,3) have "min (nat k) M = nat k" "min (nat k) N = nat k" "min (nat k) (min M N) = nat k"
    by auto
  with assms(2) show ?thesis
    by (simp add: bottleneck_eval [OF assms(1)] slice_stop_nonneg)
qed

lemma svd_C0: "svd_contract C0 (U0, [1], VT0)"
  by code_simp

lemma svd_C1: "svd_contract C1 (U1, [2, 1], VT1)"
  by code_simp

lemma svd_C2: "svd_contract C2 (U1, [2, 0], VT1)"
  by code_simp

text \<open>
  C10, amended. \<open>fit\<close> has no check of the rank parameter. For a coefficient matrix
  \<open>C\<close> of shape \<open>M \<times> N\<close> with its decomposition, and \<open>n_components = k \<ge> 0\<close>
  with \<open>k \<le> min M N\<close> or \<open>M = N\<close>, \<open>fit\<close> completes and stores a bottleneck:
  for \<open>k = 0\<close> the all-zeros \<open>M \<times> N\<close> array, with which \<open>predict\<close> returns zeros,
  and for \<open>k \<ge> min M N\<close> the full reconstruction, which is \<open>C\<close>.
\<close>

theorem fit_rank_parameter:
  assumes "linreg X y = Inr C" and "svd C = Inr (U, s, VT)" and "svd_contract C (U, s, VT)"
    and "0 \<le> n_components self"
    and "n_components self \<le> int (min (nrows C) (ncols C)) \<or> nrows C = ncols C"
  shows "\<exists>B. fit linreg svd self X y = Inr (SVDRegressor (n_components self) (Some C) (Some B)) \<and>
    (n_components self = 0 \<longrightarrow> B = zeros (nrows C) (ncols C) \<and>
       (\<forall>X'. ncols X' = nrows C \<longrightarrow>
          predict (SVDRegressor (n_components self) (Some C) (Some B)) X' = Inr (zeros (nrows X') (ncols C)))) \<and>
    (int (min (nrows C) (ncols C)) \<le> n_components self \<longrightarrow> B = C)"
proof -
  let ?k = "n_components self" and ?M = "nrows C" and ?N = "ncols C"
  from assms(3) have sh: "svd_shapes ?M ?N (U, s, VT)" and rec: "svd_reconstruct U s VT = C"
    by (simp_all add: svd_contract_def)
  have ok: "slice_stop ?k ?M = slice_stop ?k (min ?M ?N) \<and> slice_stop ?k ?N = slice_stop ?k (min ?M ?N)"
    using assms(4,5) by (auto simp: slice_stop_nonneg)
  then obtain B where B: "bottleneck U s VT ?k = Inr B"
    by (simp add: bottleneck_eval [OF sh])
  have fitted: "fit linreg svd self X y = Inr (SVDRegressor ?k (Some C) (Some B))"
    by (simp add: fit_def assms(1,2) B)
  have zero: "B = zeros ?M ?N" if "?k = 0"
    using B that bottleneck_zero [OF sh] by simp
  have pred: "predict (SVDRegressor ?k (Some C) (Some B)) X' = Inr (zeros (nrows X') ?N)"
    if "?k = 0" and "ncols X' = ?M" for X'
    using zero [OF that(1)] matmul_zeros [OF that(2)] by (simp add: predict_def)
  have full: "B = C" if "int (min ?M ?N) \<le> ?k"
    using B bottleneck_full [OF sh that assms(5)] rec by simp
  from fitted zero pred full show ?thesis
    by blast
qed



text \<open>
  As stated, the property fails where \<open>C\<close> is not square and \<open>k > min M N\<close>: the
  slices of \<open>U\<close> and of \<open>s\<close> then differ in size and the matrix product raises
  ValueError. Here \<open>C\<close> is \<open>2 \<times> 1\<close> and \<open>k = 2\<close>.
\<close>

theorem fit_rank_parameter_counterexample:
  "svd_contract C0 (U0, [1], VT0) \<and> int (min (nrows C0) (ncols C0)) \<le> 2 \<and>
   fit (\<lambda>X y. Inr C0) (\<lambda>A. Inr (U0, [1], VT0)) (SVDRegressor 2 None None) U0 C0 = Inl ValueError"
  by code_simp

theorem fit_rank_parameter_witness:
  "fit (\<lambda>X y. Inr C1) (\<lambda>A. Inr (U1, [2, 1], VT1)) (SVDRegressor 2 None None) U1 C1 =
     Inr (SVDRegressor 2 (Some C1) (Some C1)) \<and>
   fit (\<lambda>X y. Inr C1) (\<lambda>A. Inr (U1, [2, 1], VT1)) (SVDRegressor 0 None None) U1 C1 =
     Inr (SVDRegressor 0 (Some C1) (Some (zeros 2 2))) \<and>
   predict (SVDRegressor 0 (Some C1) (Some (zeros 2 2))) U1 = Inr (zeros 2 2)"
proof -
  have sh: "nrows C1 = 2" "ncols C1 = 2" "ncols U1 = 2" "nrows U1 = 2"
    by (simp_all add: C1_def U1_def)
  have "fit (\<lambda>X y. Inr C1) (\<lambda>A. Inr (U1, [2, 1], VT1)) (SVDRegressor 2 None None) U1 C1 =
     Inr (SVDRegressor 2 (Some C1) (Some C1))"
    using fit_rank_parameter [of "\<lambda>X y. Inr C1" U1 C1 C1 "\<lambda>A. Inr (U1, [2, 1], VT1)" U1 "[2, 1]" VT1
        "SVDRegressor 2 None None", OF refl refl svd_C1]
    by (auto simp: sh)
  moreover have "fit (\<lambda>X y. Inr C1) (\<lambda>A. Inr (U1, [2, 1], VT1)) (SVDRegressor 0 None None) U1 C1 =
     Inr (SVDRegressor 0 (Some C1) (Some (zeros 2 2))) \<and>
   predict (SVDRegressor 0 (Some C1) (Some (zeros 2 2))) U1 = Inr (zeros 2 2)"
    using fit_rank_parameter [of "\<lambda>X y. Inr C1" U1 C1 C1 "\<lambda>A. Inr (U1, [2, 1], VT1)" U1 "[2, 1]" VT1
        "SVDRegressor 0 None None", OF refl refl svd_C1]
    by (auto simp: sh)
  ultimately show ?thesis
    by simp
qed

lemma slice_stop_negative: "k < 0 \<Longrightarrow> slice_stop k n = n - nat (- k)"
  by (simp add: slice_stop_def)

lemma bottleneck_negative:
  assumes "svd_shapes M N (U, s, VT)" and "k < 0"
  shows "bottleneck U s VT k =
    (if M = N \<or> int (max M N) \<le> - k
     then Inr (array_of M N
       (\<lambda>i j. \<Sum>l\<leftarrow>[0..<min M N - nat (- k)]. entry U i l * (s ! l) * entry VT l j))
     else Inl ValueError)"
proof -
  have "(M - nat (- k) = min M N - nat (- k) \<and> N - nat (- k) = min M N - nat (- k)) \<longleftrightarrow>
      (M = N \<or> int (max M N) \<le> - k)"
    using assms(2) by (auto simp: min_def max_def)
  then show ?thesis
    by (simp add: bottleneck_eval [OF assms(1)] slice_stop_negative [OF assms(2)])
qed

text \<open>
  C5, amended. A rank \<open>k\<close> outside \<open>0 < k \<le> min M N\<close> never fails with
  InvalidRankError, as no rank check exists: \<open>k = 0\<close> returns the all-zeros
  \<open>M \<times> N\<close> array; \<open>k > min M N\<close> returns the full reconstruction when
  \<open>M = N\<close> and fails with the ValueError of a matrix product when \<open>M \<noteq> N\<close>; and
  \<open>k < 0\<close> is a Python slice that drops the last \<open>-k\<close> singular triplets: it returns
  the sum of the first \<open>min M N + k\<close> of them when \<open>M = N\<close> or \<open>-k \<ge> max M N\<close>, and
  fails with the ValueError of a matrix product otherwise.
\<close>

theorem truncate_outside_range:
  assumes "svd_shapes M N (U, s, VT)" and "k \<le> 0 \<or> int (min M N) < k"
  shows "bottleneck U s VT k \<noteq> Inl InvalidRankError \<and>
    (k = 0 \<longrightarrow> bottleneck U s VT k = Inr (zeros M N)) \<and>
    (int (min M N) < k \<longrightarrow>
       bottleneck U s VT k = (if M = N then Inr (svd_reconstruct U s VT) else Inl ValueError)) \<and>
    (k < 0 \<longrightarrow>
       bottleneck U s VT k =
         (if M = N \<or> int (max M N) \<le> - k
          then Inr (array_of M N
            (\<lambda>i j. \<Sum>l\<leftarrow>[0..<min M N - nat (- k)]. entry U i l * (s ! l) * entry VT l j))
          else Inl ValueError))"
proof -
  have "bottleneck U s VT k \<noteq> Inl InvalidRankError"
    by (simp add: bottleneck_eval [OF assms(1)])
  moreover have "bottleneck U s VT k = Inr (zeros M N)" if "k = 0"
    using that bottleneck_zero [OF assms(1)] by simp
  moreover have "bottleneck U s VT k = (if M = N then Inr (svd_reconstruct U s VT) else Inl ValueError)"
    if "int (min M N) < k"
    using that bottleneck_full [OF assms(1), of k] bottleneck_beyond [OF assms(1), of k]
    by (cases "M = N") simp_all
  moreover have "bottleneck U s VT k =
         (if M = N \<or> int (max M N) \<le> - k
          then Inr (array_of M N
            (\<lambda>i j. \<Sum>l\<leftarrow>[0..<min M N - nat (- k)]. entry U i l * (s ! l) * entry VT l j))
          else Inl ValueError)"
    if "k < 0"
    using assms(1) that by (rule bottleneck_negative)
  ultimately show ?thesis
    by blast
qed

text \<open>As stated, the property fails at \<open>k = 0\<close>: the truncation returns the zero array.\<close>

theorem truncate_outside_range_counterexample:
  "svd_contract C1 (U1, [2, 1], VT1) \<and> bottleneck U1 [2, 1] VT1 0 = Inr (zeros 2 2) \<and>
   bottleneck U1 [2, 1] VT1 0 \<noteq> Inl InvalidRankError"
  by code_simp

theorem truncate_outside_range_witness:
  "svd_shapes 2 1 (U0, [1], VT0) \<and> bottleneck U0 [1] VT0 3 = Inl ValueError \<and>
   bottleneck U0 [1] VT0 0 = Inr (zeros 2 1) \<and> bottleneck U1 [2, 1] VT1 3 = Inr C1 \<and>
   bottleneck U1 [2, 1] VT1 (- 1) = Inr C2 \<and> bottleneck U0 [1] VT0 (- 1) = Inl ValueError \<and>
   bottleneck U0 [1] VT0 (- 2) = Inr (zeros 2 1)"
proof -
  have sh0: "svd_shapes 2 1 (U0, [1], VT0)" and sh1: "svd_shapes 2 2 (U1, [2, 1], VT1)"
    by code_simp+
  have rec: "svd_reconstruct U1 [2, 1] VT1 = C1"
    using svd_C1 by (simp add: svd_contract_def)
  have a: "bottleneck U0 [1] VT0 3 = Inl ValueError" "bottleneck U0 [1] VT0 0 = Inr (zeros 2 1)"
    "bottleneck U1 [2, 1] VT1 3 = Inr C1"
    using truncate_outside_range [OF sh0, of 3] truncate_outside_range [OF sh0, of 0]
      truncate_outside_range [OF sh1, of 3] rec by simp_all
  have t1: "array_of 2 2 (\<lambda>i j. \<Sum>l\<leftarrow>[0..<min 2 2 - nat (- (- 1))].
      entry U1 i l * ([2, 1] ! l) * entry VT1 l j) = C2"
    and t2: "array_of 2 1 (\<lambda>i j. \<Sum>l\<leftarrow>[0..<min 2 1 - nat (- (- 2))].
      entry U0 i l * ([1] ! l) * entry VT0 l j) = zeros 2 1"
    by code_simp+
  have n1: "(- 1 :: int) \<le> 0 \<or> int (min 2 2) < - 1" and n2: "(- 1 :: int) \<le> 0 \<or> int (min 2 1) < - 1"
    and n3: "(- 2 :: int) \<le> 0 \<or> int (min 2 1) < - 2"
    by simp_all
  have b: "bottleneck U1 [2, 1] VT1 (- 1) = Inr C2"
    using truncate_outside_range [OF sh1 n1] t1 by simp
  have c: "bottleneck U0 [1] VT0 (- 1) = Inl ValueError"
    using truncate_outside_range [OF sh0 n2] by simp
  have d: "bottleneck U0 [1] VT0 (- 2) = Inr (zeros 2 1)"
    using truncate_outside_range [OF sh0 n3] t2 by simp
  from sh0 a b c d show ?thesis
    by simp
qed

section \<open>Windows: facts\<close>

lemma take_np_upt:
  assumes "b \<le> length w"
  shows "take_np (arange a b) w = Inr (drop a (take b w))"
proof -
  have "map (\<lambda>i. w ! i) [a..<b] = drop a (take b w)"
    using assms by (intro nth_equalityI) (auto simp: min_def)
  with assms show ?thesis
    by (simp add: take_np_def arange_def list_all_iff)
qed

text \<open>
  C2. For a sequence of length \<open>N\<close> and \<open>L \<ge> 1\<close> with \<open>N > 2L\<close>, the Windower
  returns \<open>N - 2L\<close> windows; window \<open>t\<close> has length \<open>2L+1\<close> and holds the items
  \<open>t..t+2L\<close> of the sequence (unit stride, no padding); its past, taken with
  \<open>np.arange(L+1)\<close>, is its first \<open>L+1\<close> items and its future, taken with
  \<open>np.arange(L+1,2*L+1)\<close>, is its last \<open>L\<close> items.
\<close>

theorem windower_windows:
  assumes "1 \<le> L" and "2 * L < length xs"
  shows "\<exists>ws. windower L xs = Inr ws \<and> length ws = length xs - 2 * L \<and>
    (\<forall>t<length xs - 2 * L.
       length (ws ! t) = 2 * L + 1 \<and> (\<forall>i<2 * L + 1. ws ! t ! i = xs ! (t + i)) \<and>
       past_of L (ws ! t) = Inr (take (L + 1) (ws ! t)) \<and> length (take (L + 1) (ws ! t)) = L + 1 \<and>
       future_of L (ws ! t) = Inr (drop (L + 1) (ws ! t)) \<and> length (drop (L + 1) (ws ! t)) = L)"
proof -
  let ?ws = "map (\<lambda>t. take (window_shape L) (drop t xs)) [0..<length xs - 2 * L]"
  have w: "windower L xs = Inr ?ws"
    using assms(2) by (simp add: windower_def)
  have "length (?ws ! t) = 2 * L + 1 \<and> (\<forall>i<2 * L + 1. ?ws ! t ! i = xs ! (t + i)) \<and>
       past_of L (?ws ! t) = Inr (take (L + 1) (?ws ! t)) \<and> length (take (L + 1) (?ws ! t)) = L + 1 \<and>
       future_of L (?ws ! t) = Inr (drop (L + 1) (?ws ! t)) \<and> length (drop (L + 1) (?ws ! t)) = L"
    if t: "t < length xs - 2 * L" for t
  proof -
    let ?w = "take (2 * L + 1) (drop t xs)"
    have wt: "?ws ! t = ?w"
      using t by (simp add: window_shape_def)
    have len: "length ?w = 2 * L + 1"
      using t by simp
    have items: "?w ! i = xs ! (t + i)" if "i < 2 * L + 1" for i
      using that t by simp
    have past: "past_of L ?w = Inr (take (L + 1) ?w)"
      using take_np_upt [of "L + 1" ?w 0] len by (simp add: past_of_def past_take_def)
    have fut: "future_of L ?w = Inr (drop (L + 1) ?w)"
      using take_np_upt [of "2 * L + 1" ?w "L + 1"] len
      by (simp add: future_of_def fut_take_def)
    from len items past fut show ?thesis
      unfolding wt by simp
  qed
  with w show ?thesis
    by simp
qed

theorem windower_windows_witness:
  "windower 1 ''abcde'' = Inr [''abc'', ''bcd'', ''cde''] \<and>
   past_of 1 ''abc'' = Inr ''ab'' \<and> future_of 1 ''abc'' = Inr ''c''"
proof -
  have h: "(1::nat) \<le> 1" "2 * 1 < length ''abcde''"
    by simp_all
  from windower_windows [OF h] obtain ws where ws: "windower 1 ''abcde'' = Inr ws"
    and "\<forall>t<length ''abcde'' - 2 * 1. past_of 1 (ws ! t) = Inr (take (1 + 1) (ws ! t)) \<and>
       future_of 1 (ws ! t) = Inr (drop (1 + 1) (ws ! t))"
    by blast
  then have p: "past_of 1 (ws ! 0) = Inr (take (1 + 1) (ws ! 0)) \<and>
       future_of 1 (ws ! 0) = Inr (drop (1 + 1) (ws ! 0))"
    by simp
  have "windower 1 ''abcde'' = Inr [''abc'', ''bcd'', ''cde'']"
    by code_simp
  with ws p show ?thesis
    by simp
qed

text \<open>
  C6. For a sequence of length \<open>N\<close> and \<open>L \<ge> 1\<close> with \<open>N \<le> 2L\<close>, the Windower
  fails with InvalidWindowError, so it returns no windows.
\<close>

theorem windower_too_short:
  assumes "1 \<le> L" and "length xs \<le> 2 * L"
  shows "windower L xs = Inl InvalidWindowError"
  using assms by (simp add: windower_def)

theorem windower_too_short_witness:
  "length ''abcde'' = 5 \<and> windower 3 ''abcde'' = Inl InvalidWindowError"
  using windower_too_short [of 3 "''abcde''"] by simp

section \<open>One-hot encoding: facts\<close>

lemma set_discover: "set (discover alphabet ws) = set alphabet \<union> set ws"
  by (induction ws arbitrary: alphabet) auto

lemma distinct_discover: "distinct alphabet \<Longrightarrow> distinct (discover alphabet ws)"
  by (induction ws arbitrary: alphabet) auto

lemma set_fit_alphabet: "set (fit_alphabet ws) = set ws"
  by (simp add: fit_alphabet_def set_discover)

lemma distinct_fit_alphabet: "distinct (fit_alphabet ws)"
  by (simp add: fit_alphabet_def distinct_discover)

lemma index_of_member:
  assumes "w \<in> set alphabet"
  shows "\<exists>c. index_of alphabet w = Some c \<and> c < length alphabet \<and> alphabet ! c = w"
  using assms by (induction alphabet) auto

lemma length_one_hot [simp]: "length (one_hot n i) = n"
  by (simp add: one_hot_def)

lemma nth_one_hot [simp]: "j < n \<Longrightarrow> one_hot n i ! j = (if j = i then 1 else 0)"
  by (simp add: one_hot_def)

lemma transform_rows_known:
  assumes "set ws \<subseteq> set alphabet"
  shows "\<exists>rs. transform_rows alphabet ws = Inr rs \<and> length rs = length ws \<and>
    (\<forall>t<length ws. \<exists>c<length alphabet. alphabet ! c = ws ! t \<and> rs ! t = one_hot (length alphabet) c)"
  using assms
proof (induction ws)
  case Nil
  then show ?case by simp
next
  case (Cons w ws)
  then obtain rs where rs: "transform_rows alphabet ws = Inr rs" "length rs = length ws"
    and row: "\<And>t. t < length ws \<Longrightarrow>
      \<exists>c<length alphabet. alphabet ! c = ws ! t \<and> rs ! t = one_hot (length alphabet) c"
    by auto
  from Cons.prems index_of_member [of w alphabet]
  obtain c where c: "index_of alphabet w = Some c" "c < length alphabet" "alphabet ! c = w"
    by auto
  let ?rs = "one_hot (length alphabet) c # rs"
  have "\<exists>c<length alphabet. alphabet ! c = (w # ws) ! t \<and> ?rs ! t = one_hot (length alphabet) c"
    if "t < length (w # ws)" for t
    using that c row by (cases t) auto
  with rs c show ?case
    by simp
qed

text \<open>
  C8. For an encoder fitted on any list of sub-words and a list of sub-words drawn from
  its alphabet, \<open>transform\<close> returns a matrix with one row per sub-word and one column
  per alphabet entry; the alphabet has no duplicates, and row \<open>t\<close> holds exactly
  \<open>1\<close> in the column of sub-word \<open>t\<close> and exactly \<open>0\<close> in every other column.
\<close>

theorem transform_one_hot:
  assumes "set ws \<subseteq> set (fit_alphabet ws0)"
  shows "\<exists>A. transform (fit_alphabet ws0) ws = Inr A \<and> wf_array A \<and>
    nrows A = length ws \<and> ncols A = length (fit_alphabet ws0) \<and> distinct (fit_alphabet ws0) \<and>
    (\<forall>t<length ws. \<exists>c<ncols A. fit_alphabet ws0 ! c = ws ! t \<and>
       (\<forall>j<ncols A. entry A t j = (if j = c then 1 else 0)))"
proof -
  let ?al = "fit_alphabet ws0"
  from transform_rows_known [OF assms]
  obtain rs where rs: "transform_rows ?al ws = Inr rs" "length rs = length ws"
    and row: "\<And>t. t < length ws \<Longrightarrow> \<exists>c<length ?al. ?al ! c = ws ! t \<and> rs ! t = one_hot (length ?al) c"
    by blast
  let ?A = "NDArray (length ws) (length ?al) rs"
  have tr: "transform ?al ws = Inr ?A"
    by (simp add: transform_def rs)
  have wf: "wf_array ?A"
    using rs(2) row by (fastforce simp: wf_array_def list_all_length)
  have "\<exists>c<ncols ?A. ?al ! c = ws ! t \<and> (\<forall>j<ncols ?A. entry ?A t j = (if j = c then 1 else 0))"
    if "t < length ws" for t
  proof -
    from row [OF that] obtain c where "c < length ?al" "?al ! c = ws ! t" "rs ! t = one_hot (length ?al) c"
      by blast
    then show ?thesis
      by (auto simp: entry_def)
  qed
  with tr wf distinct_fit_alphabet [of ws0] show ?thesis
    by auto
qed

theorem transform_one_hot_witness:
  "fit_alphabet [''ab'', ''ba'', ''ab'', ''aa''] = [''ab'', ''ba'', ''aa''] \<and>
   transform (fit_alphabet [''ab'', ''ba'', ''ab'', ''aa'']) [''ba'', ''ab''] =
     Inr (NDArray 2 3 [[0, 1, 0], [1, 0, 0]])"
proof -
  have "set [''ba'', ''ab''] \<subseteq> set (fit_alphabet [''ab'', ''ba'', ''ab'', ''aa''])"
    by code_simp
  from transform_one_hot [OF this]
  obtain A where "transform (fit_alphabet [''ab'', ''ba'', ''ab'', ''aa'']) [''ba'', ''ab''] = Inr A"
    by blast
  moreover have "transform (fit_alphabet [''ab'', ''ba'', ''ab'', ''aa'']) [''ba'', ''ab''] =
     Inr (NDArray 2 3 [[0, 1, 0], [1, 0, 0]])"
    by code_simp
  moreover have "fit_alphabet [''ab'', ''ba'', ''ab'', ''aa''] = [''ab'', ''ba'', ''aa'']"
    by code_simp
  ultimately show ?thesis
    by simp
qed

section \<open>Counting: facts\<close>

lemma sum_list_upt: "(\<Sum>k\<leftarrow>[0..<n]. f k) = (\<Sum>k<n. f k)"
  by (simp add: interv_sum_list_conv_sum_set_nat atLeast0LessThan)

lemma matmul_transpose:
  assumes "nrows P = nrows F"
  shows "matmul (transpose_np P) F =
    Inr (array_of (ncols P) (ncols F) (\<lambda>i j. \<Sum>t<nrows P. entry P t i * entry F t j))"
proof -
  have "array_of (ncols P) (ncols F)
      (\<lambda>i j. \<Sum>t\<leftarrow>[0..<nrows P]. entry (array_of (ncols P) (nrows P) (\<lambda>i j. entry P j i)) i t * entry F t j) =
    array_of (ncols P) (ncols F) (\<lambda>i j. \<Sum>t\<leftarrow>[0..<nrows P]. entry P t i * entry F t j)"
    by (intro array_of_cong arg_cong [where f = sum_list] map_cong refl) simp
  with assms show ?thesis
    by (simp add: matmul_def transpose_np_def sum_list_upt)
qed

lemma sum_axis1_array_of:
  "sum_axis1 (array_of r c g) = map (\<lambda>i. \<Sum>j<c. g i j) [0..<r]"
  by (simp add: sum_axis1_def array_of_def sum_list_upt comp_def)

lemma finite_array_array_of:
  "finite_array (array_of r c g) = array_of r c (\<lambda>i j. Finite (g i j))"
  by (simp add: finite_array_def array_of_def comp_def)

lemma sum_list_Finite: "(\<Sum>k\<leftarrow>xs. Finite (g k)) = Finite (\<Sum>k\<leftarrow>xs. g k)"
  by (induction xs) (simp_all add: zero_npfloat_def)

lemma NonFinite_plus [simp]: "NonFinite + x = NonFinite" "x + NonFinite = NonFinite"
  by (cases x; simp)+

lemma NonFinite_times [simp]: "NonFinite * x = NonFinite" "x * NonFinite = NonFinite"
  by (cases x; simp)+

lemma sum_list_NonFinite:
  assumes "k \<in> set xs" and "h k = NonFinite"
  shows "(\<Sum>k\<leftarrow>xs. h k) = NonFinite"
  using assms by (induction xs) auto

lemma joint_counts_eval:
  assumes "nrows P = nrows F"
  shows "joint_counts P F = Inr (array_of (ncols P) (ncols F) (joint P F))"
proof -
  have "joint P F = (\<lambda>i j. \<Sum>t<nrows P. entry P t i * entry F t j)"
    by (intro ext) (simp add: joint_def)
  with matmul_transpose [OF assms] show ?thesis
    by (simp add: joint_counts_def)
qed

lemma morphs_eval:
  assumes "nrows P = nrows F"
  shows "morphs P F = Inr (array_of (ncols P) (ncols F)
    (\<lambda>i j. if marginal P F i = 0 then NonFinite else Finite (joint P F i j / marginal P F i)))"
proof -
  let ?p = "ncols P" and ?f = "ncols F"
  let ?J = "array_of ?p ?f (joint P F)"
  let ?pc = "map reciprocal (sum_axis1 ?J)"
  have len: "length (sum_axis1 ?J) = ?p"
    by (simp add: sum_axis1_array_of)
  have pc: "?pc ! i = reciprocal (marginal P F i)" if "i < ?p" for i
    using that by (simp add: sum_axis1_array_of marginal_def)
  have "array_of ?p ?f (\<lambda>i j. \<Sum>k\<leftarrow>[0..<?p].
          entry (array_of ?p ?p (\<lambda>i j. if i = j then ?pc ! i else 0)) i k *
          entry (array_of ?p ?f (\<lambda>i j. Finite (joint P F i j))) k j) =
        array_of ?p ?f
          (\<lambda>i j. if marginal P F i = 0 then NonFinite else Finite (joint P F i j / marginal P F i))"
  proof (rule array_of_cong)
    fix i j assume i: "i < ?p" and j: "j < ?f"
    let ?h = "\<lambda>k. (if i = k then reciprocal (marginal P F i) else 0) * Finite (joint P F k j)"
    have "(\<Sum>k\<leftarrow>[0..<?p].
          entry (array_of ?p ?p (\<lambda>i j. if i = j then ?pc ! i else 0)) i k *
          entry (array_of ?p ?f (\<lambda>i j. Finite (joint P F i j))) k j) = (\<Sum>k\<leftarrow>[0..<?p]. ?h k)"
      using i j pc by (intro arg_cong [where f = sum_list] map_cong refl) simp
    also have "\<dots> = (if marginal P F i = 0 then NonFinite else Finite (joint P F i j / marginal P F i))"
    proof (cases "marginal P F i = 0")
      case True
      then have "?h i = NonFinite"
        by (simp add: reciprocal_def)
      moreover from i have "i \<in> set [0..<?p]" by simp
      ultimately have "(\<Sum>k\<leftarrow>[0..<?p]. ?h k) = NonFinite"
        by (rule sum_list_NonFinite [rotated])
      with True show ?thesis by simp
    next
      case False
      have "(\<Sum>k\<leftarrow>[0..<?p]. ?h k) =
          (\<Sum>k\<leftarrow>[0..<?p]. Finite ((if i = k then 1 / marginal P F i else 0) * joint P F k j))"
        using False
        by (intro arg_cong [where f = sum_list] map_cong refl) (auto simp: reciprocal_def zero_npfloat_def)
      also have "\<dots> = Finite (\<Sum>k<?p. (if i = k then 1 / marginal P F i else 0) * joint P F k j)"
        by (simp add: sum_list_Finite sum_list_upt)
      also have "(\<Sum>k<?p. (if i = k then 1 / marginal P F i else 0) * joint P F k j) =
          (\<Sum>k<?p. if k = i then joint P F k j / marginal P F i else 0)"
        by (intro sum.cong refl) simp
      also have "\<dots> = joint P F i j / marginal P F i"
        using i by simp
      finally show ?thesis
        using False by simp
    qed
    finally show "(\<Sum>k\<leftarrow>[0..<?p].
          entry (array_of ?p ?p (\<lambda>i j. if i = j then ?pc ! i else 0)) i k *
          entry (array_of ?p ?f (\<lambda>i j. Finite (joint P F i j))) k j) =
        (if marginal P F i = 0 then NonFinite else Finite (joint P F i j / marginal P F i))" .
  qed
  then show ?thesis
    by (simp add: morphs_def joint_counts_eval [OF assms] Let_def matmul_def diag_def
        finite_array_array_of len)
qed

lemma one_hot_arrayD:
  assumes "one_hot_array A" and "t < nrows A"
  shows "\<exists>c<ncols A. \<forall>k<ncols A. entry A t k = (if k = c then 1 else 0)"
proof -
  from assms have len: "length (rows A ! t) = ncols A" and hot: "one_hot_row (rows A ! t)"
    by (simp_all add: one_hot_array_def wf_array_def list_all_length)
  from hot len obtain c where "c < ncols A" "rows A ! t = one_hot (ncols A) c"
    by (auto simp: one_hot_row_def list_ex_iff)
  then show ?thesis
    by (auto simp: entry_def)
qed

lemma all_words_observedD:
  assumes "wf_array A" and "all_words_observed A" and "i < ncols A"
  shows "\<exists>t<nrows A. entry A t i = 1"
proof -
  from assms(2,3) have "\<exists>r\<in>set (rows A). r ! i = 1"
    by (simp add: all_words_observed_def list_all_iff list_ex_iff)
  then obtain r where "r \<in> set (rows A)" "r ! i = 1"
    by blast
  then obtain t where "t < length (rows A)" "rows A ! t ! i = 1"
    by (auto simp: in_set_conv_nth)
  with assms(1) show ?thesis
    by (auto simp: wf_array_def entry_def)
qed

lemma one_hot_bounds:
  assumes "one_hot_array A" and "t < nrows A" and "k < ncols A"
  shows "0 \<le> entry A t k" and "entry A t k \<le> 1"
  using one_hot_arrayD [OF assms(1,2)] assms(3) by auto

lemma one_hot_row_sum:
  assumes "one_hot_array A" and "t < nrows A"
  shows "(\<Sum>j<ncols A. entry A t j) = 1"
proof -
  from one_hot_arrayD [OF assms] obtain c where c: "c < ncols A"
    and row: "\<forall>k<ncols A. entry A t k = (if k = c then 1 else 0)"
    by blast
  have "(\<Sum>j<ncols A. entry A t j) = (\<Sum>j<ncols A. if j = c then 1 else 0)"
    using row by (intro sum.cong refl) simp
  also have "\<dots> = 1"
    using c by simp
  finally show ?thesis .
qed

lemma marginal_occurrences:
  assumes "one_hot_array F" and "nrows P = nrows F"
  shows "marginal P F i = occurrences P i"
proof -
  have "marginal P F i = (\<Sum>j<ncols F. \<Sum>t<nrows P. entry P t i * entry F t j)"
    by (simp add: marginal_def joint_def)
  also have "\<dots> = (\<Sum>t<nrows P. \<Sum>j<ncols F. entry P t i * entry F t j)"
    by (rule sum.swap)
  also have "\<dots> = (\<Sum>t<nrows P. entry P t i * (\<Sum>j<ncols F. entry F t j))"
    by (simp add: sum_distrib_left)
  also have "\<dots> = (\<Sum>t<nrows P. entry P t i)"
    using assms by (intro sum.cong refl) (simp add: one_hot_row_sum)
  finally show ?thesis
    by (simp add: occurrences_def)
qed

lemma occurrences_pos:
  assumes "one_hot_array P" and "all_words_observed P" and "i < ncols P"
  shows "1 \<le> occurrences P i"
proof -
  from assms have "wf_array P"
    by (simp add: one_hot_array_def)
  from all_words_observedD [OF this assms(2,3)] obtain t0 where t0: "t0 < nrows P" "entry P t0 i = 1"
    by blast
  have "entry P t0 i \<le> (\<Sum>t\<in>{..<nrows P}. entry P t i)"
    using t0(1) assms(1,3) by (intro member_le_sum) (auto intro: one_hot_bounds)
  with t0(2) show ?thesis
    by (simp add: occurrences_def)
qed

lemma joint_nonneg:
  assumes "one_hot_array P" and "one_hot_array F" and "nrows P = nrows F"
    and "i < ncols P" and "j < ncols F"
  shows "0 \<le> joint P F i j"
  unfolding joint_def using assms by (intro sum_nonneg mult_nonneg_nonneg one_hot_bounds) auto

lemma joint_le_marginal:
  assumes "one_hot_array P" and "one_hot_array F" and "nrows P = nrows F"
    and "i < ncols P" and "j < ncols F"
  shows "joint P F i j \<le> marginal P F i"
  unfolding marginal_def using assms by (intro member_le_sum joint_nonneg) auto

text \<open>
  C3. For one-hot past and future feature matrices over the same windows in which every
  past word occurs, \<open>morphs\<close> is a finite matrix with one row per past word and one
  column per future word; every row sums to \<open>1\<close> and every entry lies in \<open>[0, 1]\<close>.
\<close>

theorem morphs_rows_are_distributions:
  assumes "one_hot_array past_vecs" and "one_hot_array fut_vecs"
    and "nrows past_vecs = nrows fut_vecs" and "all_words_observed past_vecs"
  shows "\<exists>M. morphs past_vecs fut_vecs = Inr (finite_array M) \<and> wf_array M \<and>
    nrows M = ncols past_vecs \<and> ncols M = ncols fut_vecs \<and>
    (\<forall>i<nrows M. sum_list (rows M ! i) = 1 \<and> (\<forall>j<ncols M. 0 \<le> entry M i j \<and> entry M i j \<le> 1))"
proof -
  let ?P = past_vecs and ?F = fut_vecs
  let ?p = "ncols ?P" and ?f = "ncols ?F"
  let ?M = "array_of ?p ?f (\<lambda>i j. joint ?P ?F i j / marginal ?P ?F i)"
  have pos: "0 < marginal ?P ?F i" if "i < ?p" for i
    using occurrences_pos [OF assms(1,4) that] marginal_occurrences [OF assms(2,3), of i] by simp
  have "morphs ?P ?F = Inr (array_of ?p ?f (\<lambda>i j. Finite (joint ?P ?F i j / marginal ?P ?F i)))"
    unfolding morphs_eval [OF assms(3)] using pos
    by (intro arg_cong [where f = Inr] array_of_cong) fastforce
  then have m: "morphs ?P ?F = Inr (finite_array ?M)"
    by (simp add: finite_array_array_of)
  have "sum_list (rows ?M ! i) = 1 \<and> (\<forall>j<ncols ?M. 0 \<le> entry ?M i j \<and> entry ?M i j \<le> 1)"
    if i: "i < nrows ?M" for i
  proof -
    from i have ip: "i < ?p" by simp
    have "sum_list (rows ?M ! i) = (\<Sum>j<?f. joint ?P ?F i j / marginal ?P ?F i)"
      using ip by (simp add: array_of_def sum_list_upt)
    also have "\<dots> = marginal ?P ?F i / marginal ?P ?F i"
      by (simp add: sum_divide_distrib [symmetric] marginal_def)
    also have "\<dots> = 1"
      using pos [OF ip] by simp
    finally have row: "sum_list (rows ?M ! i) = 1" .
    have "0 \<le> entry ?M i j \<and> entry ?M i j \<le> 1" if "j < ncols ?M" for j
    proof -
      from that have j: "j < ?f" by simp
      from joint_nonneg [OF assms(1,2,3) ip j] joint_le_marginal [OF assms(1,2,3) ip j] pos [OF ip]
      show ?thesis
        using ip j by simp
    qed
    with row show ?thesis
      by blast
  qed
  with m show ?thesis
    by (intro exI [of _ ?M]) simp
qed

theorem morphs_rows_are_distributions_witness:
  "one_hot_array P_ex \<and> one_hot_array F_ex \<and> all_words_observed P_ex \<and>
   morphs P_ex F_ex = Inr (finite_array M_ex) \<and> map sum_list (rows M_ex) = [1, 1]"
proof -
  have h: "one_hot_array P_ex" "one_hot_array F_ex" "nrows P_ex = nrows F_ex" "all_words_observed P_ex"
    by code_simp+
  from morphs_rows_are_distributions [OF h] obtain M
    where "morphs P_ex F_ex = Inr (finite_array M)" "wf_array M"
    by blast
  moreover have "morphs P_ex F_ex = Inr (finite_array M_ex)"
    by code_simp
  moreover have "map sum_list (rows M_ex) = [1, 1]"
    by code_simp
  ultimately show ?thesis
    using h by simp
qed

lemma marginal_pos:
  assumes "one_hot_array P" and "one_hot_array F" and "nrows P = nrows F"
    and "all_words_observed P" and "i < ncols P"
  shows "1 \<le> marginal P F i"
  using occurrences_pos [OF assms(1,4,5)] marginal_occurrences [OF assms(2,3), of i] by simp

lemma morphs_observed:
  assumes "one_hot_array P" and "one_hot_array F" and "nrows P = nrows F"
    and "all_words_observed P"
  shows "morphs P F =
    Inr (finite_array (array_of (ncols P) (ncols F) (\<lambda>i j. joint P F i j / marginal P F i)))"
proof -
  have "marginal P F i \<noteq> 0" if "i < ncols P" for i
    using marginal_pos [OF assms that] by simp
  then have "morphs P F =
      Inr (array_of (ncols P) (ncols F) (\<lambda>i j. Finite (joint P F i j / marginal P F i)))"
    unfolding morphs_eval [OF assms(3)]
    by (intro arg_cong [where f = Inr] array_of_cong) simp
  then show ?thesis
    by (simp add: finite_array_array_of)
qed

lemma transform_fitted:
  "\<exists>A. transform (fit_alphabet ws) ws = Inr A \<and> one_hot_array A \<and> all_words_observed A \<and>
    nrows A = length ws \<and> ncols A = length (fit_alphabet ws)"
proof -
  let ?al = "fit_alphabet ws"
  let ?n = "length ?al"
  have "set ws \<subseteq> set ?al"
    by (simp add: set_fit_alphabet)
  from transform_rows_known [OF this]
  obtain rs where rs: "transform_rows ?al ws = Inr rs" "length rs = length ws"
    and row: "\<And>t. t < length ws \<Longrightarrow> \<exists>c<?n. ?al ! c = ws ! t \<and> rs ! t = one_hot ?n c"
    by blast
  let ?A = "NDArray (length ws) ?n rs"
  have tr: "transform ?al ws = Inr ?A"
    by (simp add: transform_def rs)
  have wf: "wf_array ?A"
    using rs(2) row by (fastforce simp: wf_array_def list_all_length)
  have "one_hot_row (rs ! t)" if "t < length rs" for t
  proof -
    from that rs(2) row obtain c where "c < ?n" "rs ! t = one_hot ?n c"
      by auto
    then show ?thesis
      by (auto simp: one_hot_row_def list_ex_iff)
  qed
  with wf have hot: "one_hot_array ?A"
    by (simp add: one_hot_array_def list_all_length)
  have "\<exists>r\<in>set rs. r ! i = 1" if i: "i < ?n" for i
  proof -
    from i have "?al ! i \<in> set ws"
      using set_fit_alphabet [of ws] nth_mem by blast
    then obtain t where t: "t < length ws" "ws ! t = ?al ! i"
      by (auto simp: in_set_conv_nth)
    from row [OF t(1)] obtain c where c: "c < ?n" "?al ! c = ws ! t" "rs ! t = one_hot ?n c"
      by blast
    from c(1,2) t(2) i have "c = i"
      using distinct_fit_alphabet [of ws] by (simp add: nth_eq_iff_index_eq)
    with c(3) i have "rs ! t ! i = 1"
      by simp
    with t(1) rs(2) show ?thesis
      by (metis nth_mem)
  qed
  then have obs: "all_words_observed ?A"
    by (simp add: all_words_observed_def list_all_iff list_ex_iff)
  from tr hot obs show ?thesis
    by (intro exI [of _ ?A]) simp
qed

lemma zero_column_no_inverse:
  assumes "past_squared P = Inr S" and "i < ncols P" and "\<And>t. t < nrows P \<Longrightarrow> entry P t i = 0"
  shows "\<not> (\<exists>B. is_inverse S B)"
proof
  assume "\<exists>B. is_inverse S B"
  then obtain B where B: "is_inverse S B" ..
  have S: "S = array_of (ncols P) (ncols P) (\<lambda>i j. \<Sum>t<nrows P. entry P t i * entry P t j)"
    using assms(1) matmul_transpose [of P P] by (simp add: past_squared_def)
  then have sh: "nrows S = ncols P" "ncols S = ncols P"
    by simp_all
  have zero: "entry S i k = 0" if "k < ncols P" for k
    using that assms(2,3) by (simp add: S)
  from B have "matmul S B = Inr (eye (ncols P))"
    by (simp add: is_inverse_def sh)
  then have "array_of (ncols P) (ncols B) (\<lambda>i j. \<Sum>k\<leftarrow>[0..<ncols P]. entry S i k * entry B k j) =
      eye (ncols P)"
    by (simp add: matmul_def sh split: if_splits)
  then have "entry (array_of (ncols P) (ncols B) (\<lambda>i j. \<Sum>k\<leftarrow>[0..<ncols P]. entry S i k * entry B k j)) i i =
      entry (eye (ncols P)) i i"
    by simp
  moreover from B have "ncols B = ncols P"
    by (simp add: is_inverse_def sh)
  moreover have "(\<Sum>k\<leftarrow>[0..<ncols P]. entry S i k * entry B k i) = (\<Sum>k\<leftarrow>[0..<ncols P]. 0)"
    using zero by (intro arg_cong [where f = sum_list] map_cong refl) simp
  ultimately show False
    using assms(2) by (simp add: eye_def)
qed

lemma zero_marginal_column:
  assumes "one_hot_array P" and "one_hot_array F" and "nrows P = nrows F"
    and "i < ncols P" and "marginal P F i = 0" and "t < nrows P"
  shows "entry P t i = 0"
proof -
  have "(\<Sum>t\<in>{..<nrows P}. entry P t i) = 0"
    using assms(5) marginal_occurrences [OF assms(2,3), of i] by (simp add: occurrences_def)
  moreover have "\<forall>t\<in>{..<nrows P}. 0 \<le> entry P t i"
    using assms(1,4) by (auto intro: one_hot_bounds)
  ultimately have "\<forall>t\<in>{..<nrows P}. entry P t i = 0"
    using sum_nonneg_eq_0_iff [of "{..<nrows P}" "\<lambda>t. entry P t i"] by simp
  with assms(6) show ?thesis
    by simp
qed

section \<open>Closed form and least squares: facts\<close>

lemma hot_column:
  assumes "one_hot_array A" and "t < nrows A"
  shows "hot_column A t < ncols A"
    and "k < ncols A \<Longrightarrow> entry A t k = (if k = hot_column A t then 1 else 0)"
proof -
  from one_hot_arrayD [OF assms] obtain c where c: "c < ncols A"
    and row: "\<forall>k<ncols A. entry A t k = (if k = c then 1 else 0)"
    by blast
  from assms have len: "length (rows A ! t) = ncols A"
    by (simp add: one_hot_array_def wf_array_def list_all_length)
  from c row have "rows A ! t ! c = 1"
    by (simp add: entry_def)
  with c len have "1 \<in> set (rows A ! t)"
    by (metis nth_mem)
  from index_of_member [OF this] obtain c' where c': "index_of (rows A ! t) 1 = Some c'"
    "c' < ncols A" "rows A ! t ! c' = 1"
    using len by auto
  from c'(2,3) row have "c' = c"
    by (auto simp: entry_def split: if_splits)
  with c' have h: "hot_column A t = c"
    by (simp add: hot_column_def)
  from h c show "hot_column A t < ncols A"
    by simp
  from h row show "entry A t k = (if k = hot_column A t then 1 else 0)" if "k < ncols A"
    using that by simp
qed

lemma hot_select:
  assumes "one_hot_array A" and "t < nrows A"
  shows "(\<Sum>k<ncols A. entry A t k * h k) = h (hot_column A t)"
proof -
  have "(\<Sum>k<ncols A. entry A t k * h k) = (\<Sum>k<ncols A. if k = hot_column A t then h k else 0)"
    using hot_column(2) [OF assms] by (intro sum.cong refl) simp
  also have "\<dots> = h (hot_column A t)"
    using hot_column(1) [OF assms] by simp
  finally show ?thesis .
qed

lemma hot_column_onto:
  assumes "one_hot_array A" and "all_words_observed A" and "k < ncols A"
  shows "\<exists>t<nrows A. hot_column A t = k"
proof -
  from assms have "wf_array A"
    by (simp add: one_hot_array_def)
  from all_words_observedD [OF this assms(2,3)] obtain t where t: "t < nrows A" "entry A t k = 1"
    by blast
  with hot_column(2) [OF assms(1) t(1) assms(3)] have "hot_column A t = k"
    by (simp split: if_splits)
  with t(1) show ?thesis
    by blast
qed

lemma sq_err_one_hot:
  assumes "one_hot_array P"
  shows "sq_err P F A =
    (\<Sum>t<nrows P. \<Sum>j<ncols F. (entry F t j - entry A (hot_column P t) j)\<^sup>2)"
proof -
  have "sq_err P F A =
      (\<Sum>t<nrows P. \<Sum>j<ncols F. (entry F t j - (\<Sum>k<ncols P. entry P t k * entry A k j))\<^sup>2)"
    by (simp add: sq_err_def sum_list_upt)
  also have "\<dots> = (\<Sum>t<nrows P. \<Sum>j<ncols F. (entry F t j - entry A (hot_column P t) j)\<^sup>2)"
    using assms by (intro sum.cong refl) (simp add: hot_select)
  finally show ?thesis .
qed

lemma cross_term_zero:
  assumes "one_hot_array P" and "all_words_observed P"
  shows "(\<Sum>t<nrows P. (entry F t j - frequency P F (hot_column P t) j) * g (hot_column P t)) = 0"
proof -
  let ?T = "nrows P" and ?p = "ncols P"
  let ?c = "hot_column P"
  have occ: "occurrences P k \<noteq> 0" if "k < ?p" for k
    using occurrences_pos [OF assms that] by simp
  have "(\<Sum>t<?T. (entry F t j - frequency P F (?c t) j) * g (?c t)) =
      (\<Sum>t<?T. \<Sum>k<?p. entry P t k * ((entry F t j - frequency P F k j) * g k))"
    using assms(1) by (intro sum.cong refl) (simp add: hot_select)
  also have "\<dots> = (\<Sum>k<?p. \<Sum>t<?T. entry P t k * ((entry F t j - frequency P F k j) * g k))"
    by (rule sum.swap)
  also have "\<dots> = (\<Sum>k<?p. g k * ((\<Sum>t<?T. entry P t k * entry F t j) -
      frequency P F k j * (\<Sum>t<?T. entry P t k)))"
    by (intro sum.cong refl) (simp add: sum_distrib_left sum_subtractf algebra_simps)
  also have "\<dots> = (\<Sum>k<?p. g k * (joint P F k j - frequency P F k j * occurrences P k))"
    by (simp add: joint_def occurrences_def)
  also have "\<dots> = (\<Sum>k<?p. 0)"
    using occ by (intro sum.cong refl) (simp add: frequency_def)
  finally show ?thesis
    by simp
qed

lemma sq_err_split:
  assumes "one_hot_array P" and "all_words_observed P"
  shows "sq_err P F A = sq_err P F (array_of (ncols P) (ncols F) (frequency P F)) +
    (\<Sum>t<nrows P. \<Sum>j<ncols F. (frequency P F (hot_column P t) j - entry A (hot_column P t) j)\<^sup>2)"
proof -
  let ?T = "nrows P" and ?p = "ncols P" and ?f = "ncols F"
  let ?c = "hot_column P"
  let ?M = "array_of ?p ?f (frequency P F)"
  let ?m = "\<lambda>t j. frequency P F (?c t) j"
  let ?a = "\<lambda>t j. entry A (?c t) j"
  let ?y = "\<lambda>t j. entry F t j"
  have M: "sq_err P F ?M = (\<Sum>t<?T. \<Sum>j<?f. (?y t j - ?m t j)\<^sup>2)"
    unfolding sq_err_one_hot [OF assms(1)]
    using hot_column(1) [OF assms(1)] by (intro sum.cong refl) simp
  have "(\<Sum>t<?T. \<Sum>j<?f. (?y t j - ?m t j) * (?m t j - ?a t j)) =
      (\<Sum>j<?f. \<Sum>t<?T. (?y t j - ?m t j) * (?m t j - ?a t j))"
    by (rule sum.swap)
  also have "\<dots> = (\<Sum>j<?f. 0)"
    by (intro sum.cong refl)
      (rule cross_term_zero [OF assms, where g = "\<lambda>k. frequency P F k j - entry A k j" for j])
  finally have cross: "(\<Sum>t<?T. \<Sum>j<?f. (?y t j - ?m t j) * (?m t j - ?a t j)) = 0"
    by simp
  have "sq_err P F A = (\<Sum>t<?T. \<Sum>j<?f. (?y t j - ?a t j)\<^sup>2)"
    by (rule sq_err_one_hot [OF assms(1)])
  also have "\<dots> = (\<Sum>t<?T. \<Sum>j<?f.
      ((?y t j - ?m t j)\<^sup>2 + (?m t j - ?a t j)\<^sup>2) + 2 * ((?y t j - ?m t j) * (?m t j - ?a t j)))"
    by (intro sum.cong refl) (simp add: power2_eq_square algebra_simps)
  also have "\<dots> = (\<Sum>t<?T. \<Sum>j<?f. (?y t j - ?m t j)\<^sup>2) + (\<Sum>t<?T. \<Sum>j<?f. (?m t j - ?a t j)\<^sup>2) +
      2 * (\<Sum>t<?T. \<Sum>j<?f. (?y t j - ?m t j) * (?m t j - ?a t j))"
    by (simp add: sum.distrib sum_distrib_left)
  finally show ?thesis
    by (simp add: M cross)
qed

lemma frequency_least_squares:
  assumes "one_hot_array P" and "all_words_observed P"
  shows "least_squares P F (array_of (ncols P) (ncols F) (frequency P F))"
proof -
  have "sq_err P F (array_of (ncols P) (ncols F) (frequency P F)) \<le> sq_err P F B" for B
    unfolding sq_err_split [OF assms, of F B] by (simp add: sum_nonneg)
  then show ?thesis
    by (simp add: least_squares_def coef_shape_def)
qed

lemma least_squares_unique:
  assumes "one_hot_array P" and "all_words_observed P" and "least_squares P F A"
  shows "A = array_of (ncols P) (ncols F) (frequency P F)"
proof -
  let ?T = "nrows P" and ?p = "ncols P" and ?f = "ncols F"
  let ?c = "hot_column P"
  let ?M = "array_of ?p ?f (frequency P F)"
  let ?d = "\<lambda>t j. (frequency P F (?c t) j - entry A (?c t) j)\<^sup>2"
  from assms(3) have A: "wf_array A" "nrows A = ?p" "ncols A = ?f"
    and "sq_err P F A \<le> sq_err P F ?M"
    by (simp_all add: least_squares_def coef_shape_def)
  with sq_err_split [OF assms(1,2), of F A] have "(\<Sum>t<?T. \<Sum>j<?f. ?d t j) \<le> 0"
    by simp
  moreover have "0 \<le> (\<Sum>t<?T. \<Sum>j<?f. ?d t j)"
    by (simp add: sum_nonneg)
  ultimately have "(\<Sum>t\<in>{..<?T}. \<Sum>j<?f. ?d t j) = 0"
    by simp
  then have "\<forall>t\<in>{..<?T}. (\<Sum>j<?f. ?d t j) = 0"
    using sum_nonneg_eq_0_iff [of "{..<?T}" "\<lambda>t. \<Sum>j<?f. ?d t j"] by (simp add: sum_nonneg)
  then have zero: "?d t j = 0" if "t < ?T" and "j < ?f" for t j
    using that sum_nonneg_eq_0_iff [of "{..<?f}" "\<lambda>j. ?d t j"] by simp
  have "entry A k j = frequency P F k j" if k: "k < ?p" and j: "j < ?f" for k j
  proof -
    from hot_column_onto [OF assms(1,2) k] obtain t where "t < ?T" "?c t = k"
      by blast
    with zero [of t j] j show ?thesis
      by simp
  qed
  then have "array_of ?p ?f (entry A) = ?M"
    by (intro array_of_cong) simp
  with array_of_entry [OF A(1)] A(2,3) show ?thesis
    by simp
qed

lemma past_squared_one_hot:
  assumes "one_hot_array P"
  shows "past_squared P =
    Inr (array_of (ncols P) (ncols P) (\<lambda>i k. if i = k then occurrences P i else 0))"
proof -
  have "(\<Sum>t<nrows P. entry P t i * entry P t k) = (if i = k then occurrences P i else 0)"
    if "i < ncols P" and "k < ncols P" for i k
  proof -
    have "(\<Sum>t<nrows P. entry P t i * entry P t k) =
        (\<Sum>t<nrows P. if i = k then entry P t i else 0)"
      using that hot_column(2) [OF assms] by (intro sum.cong refl) simp
    then show ?thesis
      by (simp add: occurrences_def)
  qed
  then have "array_of (ncols P) (ncols P) (\<lambda>i j. \<Sum>t<nrows P. entry P t i * entry P t j) =
      array_of (ncols P) (ncols P) (\<lambda>i k. if i = k then occurrences P i else 0)"
    by (intro array_of_cong) simp
  then show ?thesis
    using matmul_transpose [of P P] by (simp add: past_squared_def)
qed

lemma matmul_array_of:
  "matmul (array_of r n a) (array_of n c b) =
     Inr (array_of r c (\<lambda>i j. \<Sum>k<n. a i k * b k j))"
proof -
  have "array_of r c (\<lambda>i j. \<Sum>k\<leftarrow>[0..<n]. entry (array_of r n a) i k * entry (array_of n c b) k j) =
      array_of r c (\<lambda>i j. \<Sum>k\<leftarrow>[0..<n]. a i k * b k j)"
    by (intro array_of_cong arg_cong [where f = sum_list] map_cong refl) simp
  then show ?thesis
    by (simp add: matmul_def sum_list_upt)
qed

lemma diagonal_inverse:
  fixes d :: "nat \<Rightarrow> real"
  assumes "\<And>i. i < n \<Longrightarrow> d i \<noteq> 0"
  shows "is_inverse (array_of n n (\<lambda>i k. if i = k then d i else 0))
    (array_of n n (\<lambda>i k. if i = k then 1 / d i else 0))"
proof -
  have "(\<Sum>l<n. (if i = l then 1 / d i else 0) * (if l = k then d l else 0)) = (if i = k then 1 else 0)"
    if "i < n" "k < n" for i k
  proof -
    have "(\<Sum>l<n. (if i = l then 1 / d i else 0) * (if l = k then d l else 0)) =
        (\<Sum>l<n. if l = i then (if i = k then 1 else 0) else 0)"
      using assms that by (intro sum.cong refl) auto
    with that show ?thesis by simp
  qed
  then have a: "array_of n n (\<lambda>i k. \<Sum>l<n. (if i = l then 1 / d i else 0) * (if l = k then d l else 0)) =
      eye n"
    unfolding eye_def by (intro array_of_cong) simp
  have "(\<Sum>l<n. (if i = l then d i else 0) * (if l = k then 1 / d l else 0)) = (if i = k then 1 else 0)"
    if "i < n" "k < n" for i k
  proof -
    have "(\<Sum>l<n. (if i = l then d i else 0) * (if l = k then 1 / d l else 0)) =
        (\<Sum>l<n. if l = i then (if i = k then 1 else 0) else 0)"
      using assms that by (intro sum.cong refl) auto
    with that show ?thesis by simp
  qed
  then have b: "array_of n n (\<lambda>i k. \<Sum>l<n. (if i = l then d i else 0) * (if l = k then 1 / d l else 0)) =
      eye n"
    unfolding eye_def by (intro array_of_cong) simp
  from a b show ?thesis
    by (simp add: is_inverse_def matmul_array_of)
qed

lemma inverse_of_diagonal:
  fixes d :: "nat \<Rightarrow> real"
  assumes "\<And>i. i < n \<Longrightarrow> d i \<noteq> 0"
    and "is_inverse (array_of n n (\<lambda>i k. if i = k then d i else 0)) B"
  shows "B = array_of n n (\<lambda>i k. if i = k then 1 / d i else 0)"
proof -
  let ?S = "array_of n n (\<lambda>i k. if i = k then d i else 0)"
  from assms(2) have B: "wf_array B" "nrows B = n" "ncols B = n" and BS: "matmul B ?S = Inr (eye n)"
    by (simp_all add: is_inverse_def)
  from array_of_entry [OF B(1)] B(2,3) have Beq: "B = array_of n n (entry B)"
    by simp
  have "array_of n n (\<lambda>i j. \<Sum>k<n. entry B i k * (if k = j then d k else 0)) = eye n"
    using BS by (subst (asm) Beq) (simp add: matmul_array_of)
  then have e: "entry (array_of n n (\<lambda>i j. \<Sum>k<n. entry B i k * (if k = j then d k else 0))) i k =
      entry (eye n) i k" for i k
    by simp
  have prod: "(\<Sum>l<n. entry B i l * (if l = k then d l else 0)) = (if i = k then 1 else 0)"
    if "i < n" "k < n" for i k
    using that e [of i k] by (simp add: eye_def)
  have "entry B i k = (if i = k then 1 / d i else 0)" if "i < n" "k < n" for i k
  proof -
    have "(\<Sum>l<n. entry B i l * (if l = k then d l else 0)) =
        (\<Sum>l<n. if l = k then entry B i k * d k else 0)"
      by (intro sum.cong refl) simp
    also have "\<dots> = entry B i k * d k"
      using that by simp
    finally have "entry B i k * d k = (if i = k then 1 else 0)"
      using prod [OF that] by simp
    with assms(1) [OF that(2)] show ?thesis
      by (auto simp: field_simps)
  qed
  then have "array_of n n (entry B) = array_of n n (\<lambda>i k. if i = k then 1 / d i else 0)"
    by (intro array_of_cong) simp
  with Beq show ?thesis
    by simp
qed

lemma new_morphs_frequency:
  assumes "one_hot_array P" and "all_words_observed P" and "nrows P = nrows F"
    and "past_squared P = Inr S" and "inv_contract linalg_inv S"
  shows "new_morphs linalg_inv P F = Inr (array_of (ncols P) (ncols F) (frequency P F))"
proof -
  let ?p = "ncols P" and ?f = "ncols F"
  let ?d = "occurrences P"
  have occ: "?d i \<noteq> 0" if "i < ?p" for i
    using occurrences_pos [OF assms(1,2) that] by simp
  from assms(4) past_squared_one_hot [OF assms(1)]
  have S: "S = array_of ?p ?p (\<lambda>i k. if i = k then ?d i else 0)"
    by simp
  let ?D = "array_of ?p ?p (\<lambda>i k. if i = k then 1 / ?d i else 0)"
  from diagonal_inverse [of ?p ?d] occ have "is_inverse S ?D"
    by (simp add: S)
  with assms(5) obtain B where B: "linalg_inv S = Inr B" "is_inverse S B"
    by (auto simp: inv_contract_def split: sum.splits)
  from inverse_of_diagonal [of ?p ?d B] occ B(2) have "B = ?D"
    by (simp add: S)
  with B(1) have inv: "linalg_inv S = Inr ?D"
    by simp
  have "(\<Sum>k<?p. (if i = k then 1 / ?d i else 0) * joint P F k j) = frequency P F i j"
    if "i < ?p" for i j
  proof -
    have "(\<Sum>k<?p. (if i = k then 1 / ?d i else 0) * joint P F k j) =
        (\<Sum>k<?p. if k = i then joint P F k j / ?d i else 0)"
      by (intro sum.cong refl) simp
    with that show ?thesis
      by (simp add: frequency_def)
  qed
  then have "array_of ?p ?f (\<lambda>i j. \<Sum>k<?p. (if i = k then 1 / ?d i else 0) * joint P F k j) =
      array_of ?p ?f (frequency P F)"
    by (intro array_of_cong) simp
  then show ?thesis
    by (simp add: new_morphs_def joint_counts_eval [OF assms(3)] assms(4) inv matmul_array_of)
qed

text \<open>
  C1. For one-hot past and future feature matrices over the same windows in which every
  past word occurs, \<open>past_squared\<close> is the diagonal matrix of the occurrence counts of
  the past words, the closed form \<open>inv(past_squared) @ joint_counts\<close> returns a matrix,
  that matrix is a least-squares solution of the regression with no intercept, and every
  least-squares solution is equal to it. Numbers are exact reals: the two routes agree
  exactly, hence within any tolerance.
\<close>

theorem closed_form_is_least_squares:
  assumes "one_hot_array past_vecs" and "one_hot_array fut_vecs"
    and "nrows past_vecs = nrows fut_vecs" and "all_words_observed past_vecs"
    and "past_squared past_vecs = Inr S" and "inv_contract linalg_inv S"
  shows "S = diag (map (occurrences past_vecs) [0..<ncols past_vecs]) \<and>
    (\<exists>M. new_morphs linalg_inv past_vecs fut_vecs = Inr M \<and>
       least_squares past_vecs fut_vecs M \<and>
       (\<forall>A. least_squares past_vecs fut_vecs A \<longrightarrow> A = M))"
proof -
  let ?p = "ncols past_vecs"
  let ?M = "array_of ?p (ncols fut_vecs) (frequency past_vecs fut_vecs)"
  have "array_of ?p ?p (\<lambda>i k. if i = k then occurrences past_vecs i else 0) =
      array_of ?p ?p (\<lambda>i k. if i = k then map (occurrences past_vecs) [0..<?p] ! i else 0)"
    by (intro array_of_cong) simp
  with assms(5) past_squared_one_hot [OF assms(1)]
  have "S = diag (map (occurrences past_vecs) [0..<?p])"
    by (simp add: diag_def)
  moreover have "new_morphs linalg_inv past_vecs fut_vecs = Inr ?M"
    by (rule new_morphs_frequency [OF assms(1,4,3,5,6)])
  moreover have "least_squares past_vecs fut_vecs ?M"
    by (rule frequency_least_squares [OF assms(1,4)])
  moreover have "\<forall>A. least_squares past_vecs fut_vecs A \<longrightarrow> A = ?M"
    using least_squares_unique [OF assms(1,4)] by blast
  ultimately show ?thesis
    by blast
qed

theorem closed_form_is_least_squares_witness:
  "one_hot_array P_ex \<and> one_hot_array F_ex \<and> nrows P_ex = nrows F_ex \<and>
   all_words_observed P_ex \<and> past_squared P_ex = Inr S_ex \<and> inv_contract inv_diagonal S_ex \<and>
   new_morphs inv_diagonal P_ex F_ex = Inr M_ex \<and> least_squares P_ex F_ex M_ex"
proof -
  have h: "one_hot_array P_ex" "one_hot_array F_ex" "nrows P_ex = nrows F_ex"
    "all_words_observed P_ex" "past_squared P_ex = Inr S_ex"
    by code_simp+
  have "inv_diagonal S_ex = Inr (NDArray 2 2 [[1 / 2, 0], [0, 1]])"
    and "is_inverse S_ex (NDArray 2 2 [[1 / 2, 0], [0, 1]])"
    by code_simp+
  then have inv: "inv_contract inv_diagonal S_ex"
    by (simp add: inv_contract_def)
  have m: "new_morphs inv_diagonal P_ex F_ex = Inr M_ex"
    by code_simp
  from closed_form_is_least_squares [OF h inv] obtain M
    where "new_morphs inv_diagonal P_ex F_ex = Inr M" "least_squares P_ex F_ex M"
    by blast
  with m have "least_squares P_ex F_ex M_ex"
    by simp
  with h inv m show ?thesis
    by simp
qed

section \<open>The rank bottleneck: rank and idempotence\<close>

lemma underdetermined:
  fixes Q :: "nat \<Rightarrow> nat \<Rightarrow> real"
  assumes "finite E" and "card E \<le> k"
  shows "\<exists>x. (\<exists>b\<le>k. x b \<noteq> 0) \<and> (\<forall>l\<in>E. (\<Sum>b\<le>k. Q l b * x b) = 0)"
  using assms
proof (induction k arbitrary: E Q)
  case 0
  then have "E = {}" by simp
  then show ?case
    by (intro exI [of _ "\<lambda>b. 1"]) simp
next
  case (Suc k)
  show ?case
  proof (cases "\<forall>l\<in>E. Q l (Suc k) = 0")
    case True
    let ?x = "\<lambda>b. if b = Suc k then 1 else 0 :: real"
    have "(\<Sum>b\<le>Suc k. Q l b * ?x b) = 0" if "l \<in> E" for l
    proof -
      have "(\<Sum>b\<le>Suc k. Q l b * ?x b) = (\<Sum>b\<le>Suc k. if b = Suc k then Q l b else 0)"
        by (intro sum.cong refl) simp
      with True that show ?thesis by simp
    qed
    moreover have "\<exists>b\<le>Suc k. ?x b \<noteq> 0"
      by (intro exI [of _ "Suc k"]) simp
    ultimately show ?thesis
      by (intro exI [of _ ?x]) blast
  next
    case False
    then obtain l0 where l0: "l0 \<in> E" "Q l0 (Suc k) \<noteq> 0"
      by blast
    let ?q = "Q l0 (Suc k)"
    let ?Q' = "\<lambda>l b. Q l b - Q l (Suc k) * Q l0 b / ?q"
    from Suc.prems l0(1) have "finite (E - {l0})" "card (E - {l0}) \<le> k"
      by simp_all
    from Suc.IH [OF this, of ?Q'] obtain x where nz: "\<exists>b\<le>k. x b \<noteq> 0"
      and eqs: "\<And>l. l \<in> E - {l0} \<Longrightarrow> (\<Sum>b\<le>k. ?Q' l b * x b) = 0"
      by blast
    let ?S0 = "\<Sum>b\<le>k. Q l0 b * x b"
    let ?y = "\<lambda>b. if b = Suc k then - ?S0 / ?q else x b"
    have split: "(\<Sum>b\<le>Suc k. Q l b * ?y b) = (\<Sum>b\<le>k. Q l b * x b) + Q l (Suc k) * (- ?S0 / ?q)" for l
    proof -
      have "(\<Sum>b\<le>k. Q l b * ?y b) = (\<Sum>b\<le>k. Q l b * x b)"
        by (intro sum.cong refl) simp
      then show ?thesis by simp
    qed
    have "(\<Sum>b\<le>Suc k. Q l b * ?y b) = 0" if "l \<in> E" for l
    proof (cases "l = l0")
      case True
      with l0(2) show ?thesis
        unfolding split by simp
    next
      case False
      with that have "(\<Sum>b\<le>k. ?Q' l b * x b) = 0"
        by (intro eqs) simp
      moreover have "(\<Sum>b\<le>k. ?Q' l b * x b) =
          (\<Sum>b\<le>k. Q l b * x b) - Q l (Suc k) / ?q * ?S0"
        by (simp add: left_diff_distrib sum_subtractf sum_distrib_left mult.assoc
            times_divide_eq_left [symmetric] del: times_divide_eq_left)
      ultimately show ?thesis
        unfolding split by simp
    qed
    moreover from nz obtain b where "b \<le> k" "x b \<noteq> 0"
      by blast
    then have "\<exists>b\<le>Suc k. ?y b \<noteq> 0"
      by (intro exI [of _ b]) simp
    ultimately show ?thesis
      by (intro exI [of _ ?y]) blast
  qed
qed

lemma bilinear_sum:
  fixes d :: "nat \<Rightarrow> nat \<Rightarrow> real"
  assumes "\<And>i j. i < M \<Longrightarrow> j < N \<Longrightarrow> d i j = (\<Sum>c<n. p i c * q c j)"
  shows "(\<Sum>i<M. \<Sum>j<N. f i * d i j * g j) = (\<Sum>c<n. (\<Sum>i<M. f i * p i c) * (\<Sum>j<N. q c j * g j))"
proof -
  have "(\<Sum>i<M. \<Sum>j<N. f i * d i j * g j) = (\<Sum>i<M. \<Sum>j<N. \<Sum>c<n. (f i * p i c) * (q c j * g j))"
    using assms by (intro sum.cong refl) (simp add: sum_distrib_left sum_distrib_right mult.assoc)
  also have "\<dots> = (\<Sum>i<M. \<Sum>c<n. \<Sum>j<N. (f i * p i c) * (q c j * g j))"
    by (intro sum.cong refl) (rule sum.swap)
  also have "\<dots> = (\<Sum>c<n. \<Sum>i<M. \<Sum>j<N. (f i * p i c) * (q c j * g j))"
    by (rule sum.swap)
  also have "\<dots> = (\<Sum>c<n. (\<Sum>i<M. f i * p i c) * (\<Sum>j<N. q c j * g j))"
    by (simp add: sum_product)
  finally show ?thesis .
qed

lemma array_of_eqD:
  assumes "array_of r c f = array_of r c g" and "i < r" and "j < c"
  shows "f i j = g i j"
proof -
  from assms(1) have "entry (array_of r c f) i j = entry (array_of r c g) i j"
    by simp
  with assms(2,3) show ?thesis
    by simp
qed

lemma matmul_transpose_right:
  "matmul A (transpose_np A) =
     Inr (array_of (nrows A) (nrows A) (\<lambda>i j. \<Sum>k<ncols A. entry A i k * entry A j k))"
proof -
  have "array_of (nrows A) (nrows A)
      (\<lambda>i j. \<Sum>k\<leftarrow>[0..<ncols A]. entry A i k * entry (array_of (ncols A) (nrows A) (\<lambda>i j. entry A j i)) k j) =
    array_of (nrows A) (nrows A) (\<lambda>i j. \<Sum>k\<leftarrow>[0..<ncols A]. entry A i k * entry A j k)"
    by (intro array_of_cong arg_cong [where f = sum_list] map_cong refl) simp
  then show ?thesis
    by (simp add: matmul_def transpose_np_def sum_list_upt)
qed

lemma svd_contract_orthogonal:
  assumes "svd_contract D (U, s, VT)"
  shows "a < nrows D \<Longrightarrow> c < nrows D \<Longrightarrow>
      (\<Sum>i<nrows D. entry U i a * entry U i c) = (if a = c then 1 else 0)"
    and "a < ncols D \<Longrightarrow> c < ncols D \<Longrightarrow>
      (\<Sum>j<ncols D. entry VT a j * entry VT c j) = (if a = c then 1 else 0)"
proof -
  from assms have sh: "nrows U = nrows D" "ncols U = nrows D" "nrows VT = ncols D" "ncols VT = ncols D"
    and U: "matmul (transpose_np U) U = Inr (eye (nrows D))"
    and V: "matmul VT (transpose_np VT) = Inr (eye (ncols D))"
    by (simp_all add: svd_contract_def svd_shapes_def)
  from U matmul_transpose [of U U] sh
  have "array_of (nrows D) (nrows D) (\<lambda>i j. \<Sum>t<nrows D. entry U t i * entry U t j) =
      array_of (nrows D) (nrows D) (\<lambda>i j. if i = j then 1 else 0)"
    by (simp add: eye_def)
  from array_of_eqD [OF this]
  show "(\<Sum>i<nrows D. entry U i a * entry U i c) = (if a = c then 1 else 0)"
    if "a < nrows D" "c < nrows D"
    using that by simp
  from V matmul_transpose_right [of VT] sh
  have "array_of (ncols D) (ncols D) (\<lambda>i j. \<Sum>k<ncols D. entry VT i k * entry VT j k) =
      array_of (ncols D) (ncols D) (\<lambda>i j. if i = j then 1 else 0)"
    by (simp add: eye_def)
  from array_of_eqD [OF this]
  show "(\<Sum>j<ncols D. entry VT a j * entry VT c j) = (if a = c then 1 else 0)"
    if "a < ncols D" "c < ncols D"
    using that by simp
qed

lemma svd_contract_entry:
  assumes "svd_contract D (U, s, VT)" and "i < nrows D" and "j < ncols D"
  shows "entry D i j = (\<Sum>c<length s. entry U i c * (s ! c) * entry VT c j)"
proof -
  from assms(1) have "nrows U = nrows D" "ncols VT = ncols D" "svd_reconstruct U s VT = D"
    by (simp_all add: svd_contract_def svd_shapes_def)
  then have "array_of (nrows D) (ncols D)
      (\<lambda>i j. \<Sum>l\<leftarrow>[0..<length s]. entry U i l * (s ! l) * entry VT l j) = D"
    by (simp only: svd_reconstruct_def)
  then have "entry D i j = entry (array_of (nrows D) (ncols D)
      (\<lambda>i j. \<Sum>l\<leftarrow>[0..<length s]. entry U i l * (s ! l) * entry VT l j)) i j"
    by simp
  with assms(2,3) show ?thesis
    by (simp add: sum_list_upt)
qed

lemma svd_gram:
  assumes "svd_contract D (U, s, VT)" and "a < length s" and "b < length s"
  shows "(\<Sum>i<nrows D. \<Sum>j<ncols D. entry U i a * entry D i j * entry VT b j) =
    (if a = b then s ! a else 0)"
proof -
  let ?M = "nrows D" and ?N = "ncols D" and ?K = "length s"
  from assms(1) have K: "?K = min ?M ?N"
    by (simp add: svd_contract_def svd_shapes_def)
  with assms(2,3) have ab: "a < ?M" "b < ?N" "a < ?N" "b < ?M"
    by simp_all
  have "(\<Sum>i<?M. \<Sum>j<?N. entry U i a * entry D i j * entry VT b j) =
      (\<Sum>c<?K. (\<Sum>i<?M. entry U i a * (entry U i c * (s ! c))) * (\<Sum>j<?N. entry VT c j * entry VT b j))"
    by (rule bilinear_sum) (simp add: svd_contract_entry [OF assms(1)])
  also have "\<dots> = (\<Sum>c<?K. if c = a then (if a = b then s ! a else 0) else 0)"
  proof (intro sum.cong refl)
    fix c assume "c \<in> {..<?K}"
    with K have c: "c < ?M" "c < ?N" by simp_all
    have "(\<Sum>i<?M. entry U i a * (entry U i c * (s ! c))) = (\<Sum>i<?M. entry U i a * entry U i c) * (s ! c)"
      by (simp add: sum_distrib_right mult.assoc)
    also have "\<dots> = (if a = c then s ! c else 0)"
      using svd_contract_orthogonal(1) [OF assms(1) ab(1) c(1)] by simp
    finally have "(\<Sum>i<?M. entry U i a * (entry U i c * (s ! c))) = (if a = c then s ! c else 0)" .
    moreover have "(\<Sum>j<?N. entry VT c j * entry VT b j) = (if c = b then 1 else 0)"
      using svd_contract_orthogonal(2) [OF assms(1) c(2) ab(2)] by simp
    ultimately show "(\<Sum>i<?M. entry U i a * (entry U i c * (s ! c))) * (\<Sum>j<?N. entry VT c j * entry VT b j) =
        (if c = a then (if a = b then s ! a else 0) else 0)"
      by auto
  qed
  also have "\<dots> = (if a = b then s ! a else 0)"
    using assms(2) by simp
  finally show ?thesis .
qed

lemma low_rank_singular_values:
  assumes "svd_contract D (U, s, VT)" and "rank_at_most k D" and "k \<le> l" and "l < length s"
  shows "s ! l = 0"
proof (rule ccontr)
  assume nz: "s ! l \<noteq> 0"
  let ?M = "nrows D" and ?N = "ncols D"
  from assms(1) have sorted: "sorted (rev s)" and nonneg: "list_all (\<lambda>x. 0 \<le> x) s"
    by (simp_all add: svd_contract_def)
  from nonneg assms(4) nz have "0 < s ! l"
    by (simp add: list_all_length order_less_le)
  then have pos: "0 < s ! a" if "a \<le> k" for a
    using sorted_rev_nth_mono [OF sorted, of a l] that assms(3,4) by simp
  from assms(2) obtain A B where AB: "nrows A = ?M" "ncols A = k" "nrows B = k" "ncols B = ?N"
    "matmul A B = Inr D"
    by (auto simp: rank_at_most_def)
  then have "array_of ?M ?N (\<lambda>i j. \<Sum>c\<leftarrow>[0..<k]. entry A i c * entry B c j) = D"
    by (simp add: matmul_def)
  then have D: "entry D i j = (\<Sum>c<k. entry A i c * entry B c j)" if "i < ?M" "j < ?N" for i j
    using that entry_array_of [OF that, of "\<lambda>i j. \<Sum>c\<leftarrow>[0..<k]. entry A i c * entry B c j"]
    by (simp add: sum_list_upt)
  let ?P = "\<lambda>a c. \<Sum>i<?M. entry U i a * entry A i c"
  let ?Q = "\<lambda>c b. \<Sum>j<?N. entry B c j * entry VT b j"
  have gram: "(\<Sum>c<k. ?P a c * ?Q c b) = (if a = b then s ! a else 0)" if "a \<le> k" "b \<le> k" for a b
  proof -
    from that assms(3,4) have "a < length s" "b < length s"
      by simp_all
    from svd_gram [OF assms(1) this]
      bilinear_sum [where M = ?M and N = ?N and d = "entry D" and n = k and p = "entry A"
        and q = "entry B" and f = "\<lambda>i. entry U i a" and g = "\<lambda>j. entry VT b j"] D
    show ?thesis
      by simp
  qed
  from underdetermined [of "{..<k}" k ?Q] obtain x where x: "\<exists>b\<le>k. x b \<noteq> 0"
    and eqs: "\<And>c. c < k \<Longrightarrow> (\<Sum>b\<le>k. ?Q c b * x b) = 0"
    by auto
  have "x a = 0" if a: "a \<le> k" for a
  proof -
    have "s ! a * x a = (\<Sum>b\<le>k. (if a = b then s ! a else 0) * x b)"
      using a by (simp add: if_distrib [of "\<lambda>y. y * _"] cong: if_cong)
    also have "\<dots> = (\<Sum>b\<le>k. (\<Sum>c<k. ?P a c * ?Q c b) * x b)"
      using gram [OF a] by (intro sum.cong refl) simp
    also have "\<dots> = (\<Sum>b\<le>k. \<Sum>c<k. ?P a c * (?Q c b * x b))"
      by (simp add: sum_distrib_right mult.assoc)
    also have "\<dots> = (\<Sum>c<k. \<Sum>b\<le>k. ?P a c * (?Q c b * x b))"
      by (rule sum.swap)
    also have "\<dots> = (\<Sum>c<k. ?P a c * (\<Sum>b\<le>k. ?Q c b * x b))"
      by (simp add: sum_distrib_left)
    also have "\<dots> = 0"
      using eqs by simp
    finally show ?thesis
      using pos [OF a] by simp
  qed
  with x show False
    by blast
qed

lemma bottleneck_tail_zero:
  assumes "svd_contract C (U, s, VT)" and "0 \<le> k" and "k \<le> int (min (nrows C) (ncols C))"
    and tail: "\<And>l. nat k \<le> l \<Longrightarrow> l < length s \<Longrightarrow> s ! l = 0"
  shows "bottleneck U s VT k = Inr C"
proof -
  let ?M = "nrows C" and ?N = "ncols C"
  from assms(1) have sh: "svd_shapes ?M ?N (U, s, VT)" and rec: "svd_reconstruct U s VT = C"
    by (simp_all add: svd_contract_def)
  from sh have len: "length s = min ?M ?N" "nrows U = ?M" "ncols VT = ?N"
    by (simp_all add: svd_shapes_def)
  from assms(2,3) have k: "nat k \<le> length s"
    unfolding len by linarith
  have "(\<Sum>l\<leftarrow>[0..<nat k]. entry U i l * (s ! l) * entry VT l j) =
      (\<Sum>l\<leftarrow>[0..<length s]. entry U i l * (s ! l) * entry VT l j)" for i j
  proof -
    have "[0..<length s] = [0..<nat k] @ [nat k..<length s]"
      using k by (metis le_add_diff_inverse upt_add_eq_append zero_le)
    moreover have "(\<Sum>l\<leftarrow>[nat k..<length s]. entry U i l * (s ! l) * entry VT l j) =
        (\<Sum>l\<leftarrow>[nat k..<length s]. 0)"
      using tail by (intro arg_cong [where f = sum_list] map_cong refl) simp
    ultimately show ?thesis
      by simp
  qed
  then have "array_of ?M ?N (\<lambda>i j. \<Sum>l\<leftarrow>[0..<nat k]. entry U i l * (s ! l) * entry VT l j) = C"
    using rec by (simp add: svd_reconstruct_def len)
  with bottleneck_truncated [OF sh assms(2,3)] show ?thesis
    by simp
qed

lemma truncation_rank:
  "rank_at_most n (array_of M N (\<lambda>i j. \<Sum>l\<leftarrow>[0..<n]. u i l * \<sigma> l * v l j))"
proof -
  have "matmul (array_of M n (\<lambda>i l. u i l * \<sigma> l)) (array_of n N v) =
      Inr (array_of M N (\<lambda>i j. \<Sum>l\<leftarrow>[0..<n]. u i l * \<sigma> l * v l j))"
    by (simp add: matmul_array_of sum_list_upt)
  then show ?thesis
    unfolding rank_at_most_def
    by (intro exI [of _ "array_of M n (\<lambda>i l. u i l * \<sigma> l)"] exI [of _ "array_of n N v"]) simp
qed

text \<open>
  C4. For a matrix \<open>C\<close> with its singular value decomposition and \<open>0 < k \<le> min M N\<close>,
  the truncation returns \<open>U[:, :k] diag(s[:k]) VT[:k]\<close>, the sum of the first \<open>k\<close>
  singular triplets; on a matrix that is already of rank at most \<open>k\<close> it returns the
  matrix itself; it is idempotent: truncating its result again at \<open>k\<close>, with any singular
  value decomposition of the result, returns the result; and at \<open>k = min M N\<close> it
  returns \<open>C\<close>. Numbers are exact reals, so the tolerance is zero.
\<close>

theorem truncate_rank_k:
  assumes "svd_contract C (U, s, VT)" and "0 < k" and "k \<le> int (min (nrows C) (ncols C))"
  shows "bottleneck U s VT k =
      Inr (array_of (nrows C) (ncols C) (\<lambda>i j. \<Sum>l\<leftarrow>[0..<nat k]. entry U i l * (s ! l) * entry VT l j)) \<and>
    (rank_at_most (nat k) C \<longrightarrow> bottleneck U s VT k = Inr C) \<and>
    (\<forall>D U' s' VT'. bottleneck U s VT k = Inr D \<and> svd_contract D (U', s', VT') \<longrightarrow>
       bottleneck U' s' VT' k = Inr D) \<and>
    (k = int (min (nrows C) (ncols C)) \<longrightarrow> bottleneck U s VT k = Inr C)"
proof -
  let ?M = "nrows C" and ?N = "ncols C"
  let ?T = "array_of ?M ?N (\<lambda>i j. \<Sum>l\<leftarrow>[0..<nat k]. entry U i l * (s ! l) * entry VT l j)"
  from assms(1) have sh: "svd_shapes ?M ?N (U, s, VT)"
    by (simp add: svd_contract_def)
  then have len: "length s = min ?M ?N"
    by (simp add: svd_shapes_def)
  from assms(2) have k: "0 \<le> k"
    by simp
  have trunc: "bottleneck U s VT k = Inr ?T"
    by (rule bottleneck_truncated [OF sh k assms(3)])
  have low: "bottleneck U s VT k = Inr C" if "rank_at_most (nat k) C"
    using assms(1) k assms(3) low_rank_singular_values [OF assms(1) that]
    by (rule bottleneck_tail_zero)
  have idem: "bottleneck U' s' VT' k = Inr D"
    if "bottleneck U s VT k = Inr D \<and> svd_contract D (U', s', VT')" for D U' s' VT'
  proof -
    from that trunc have D: "D = ?T" and svd: "svd_contract D (U', s', VT')"
      by simp_all
    from D have rank: "rank_at_most (nat k) D"
      by (simp add: truncation_rank)
    from D assms(3) have "k \<le> int (min (nrows D) (ncols D))"
      by simp
    with svd k show ?thesis
      using low_rank_singular_values [OF svd rank] by (rule bottleneck_tail_zero)
  qed
  have full: "bottleneck U s VT k = Inr C" if "k = int (min ?M ?N)"
    using assms(1) k assms(3)
  proof (rule bottleneck_tail_zero)
    fix l assume "nat k \<le> l" "l < length s"
    with that len show "s ! l = 0" by simp
  qed
  from trunc low idem full show ?thesis
    by blast
qed

lemma rank_C2: "rank_at_most 1 C2"
proof -
  have "matmul (NDArray 2 1 [[2], [0]]) (NDArray 1 2 [[0, 1]]) = Inr C2"
    by code_simp
  then show ?thesis
    unfolding rank_at_most_def
    by (intro exI [of _ "NDArray 2 1 [[2], [0]]"] exI [of _ "NDArray 1 2 [[0, 1]]"])
      (simp add: C2_def)
qed

theorem truncate_rank_k_witness:
  "svd_contract C1 (U1, [2, 1], VT1) \<and> bottleneck U1 [2, 1] VT1 1 = Inr C2 \<and>
   bottleneck U1 [2, 1] VT1 2 = Inr C1 \<and>
   svd_contract C2 (U1, [2, 0], VT1) \<and> rank_at_most 1 C2 \<and> bottleneck U1 [2, 0] VT1 1 = Inr C2"
proof -
  have sh: "nrows C1 = 2" "ncols C1 = 2" "nrows C2 = 2" "ncols C2 = 2"
    by (simp_all add: C1_def C2_def)
  have trunc: "array_of 2 2 (\<lambda>i j. \<Sum>l\<leftarrow>[0..<nat 1]. entry U1 i l * ([2, 1] ! l) * entry VT1 l j) = C2"
    by code_simp
  have k1: "(0::int) < 1" "1 \<le> int (min (nrows C1) (ncols C1))" "1 \<le> int (min (nrows C2) (ncols C2))"
    and k2: "(0::int) < 2" "2 \<le> int (min (nrows C1) (ncols C1))" "2 = int (min (nrows C1) (ncols C1))"
    by (simp_all add: sh)
  have a: "bottleneck U1 [2, 1] VT1 1 = Inr C2"
    using truncate_rank_k [OF svd_C1 k1(1,2), THEN conjunct1] by (simp only: sh trunc)
  have b: "bottleneck U1 [2, 1] VT1 2 = Inr C1"
    using truncate_rank_k [OF svd_C1 k2(1,2)] k2(3) by blast
  have c: "bottleneck U1 [2, 0] VT1 1 = Inr C2"
    using truncate_rank_k [OF svd_C1 k1(1,2)] a svd_C2 by blast
  from a b c svd_C1 svd_C2 rank_C2 show ?thesis
    by simp
qed

section \<open>Zero marginal counts\<close>

lemma p_counts_marginal:
  assumes "nrows P = nrows F"
  shows "\<exists>J. joint_counts P F = Inr J \<and> length (sum_axis1 J) = ncols P \<and>
    (\<forall>i<ncols P. sum_axis1 J ! i = marginal P F i)"
  by (simp add: joint_counts_eval [OF assms] sum_axis1_array_of marginal_def)

text \<open>
  C7, amended. The code has no SingularMarginalError. When the past and the future
  alphabet are fitted on the same windows that are counted, every entry of \<open>p_counts\<close>
  is at least \<open>1\<close> and \<open>morphs\<close> is finite: a zero marginal is not reachable. On other
  feature matrices over the same number of windows,
  \<open>np.diag(p_counts**(-1)) @ joint_counts\<close> raises nothing, and the row of a past word
  whose entry of \<open>p_counts\<close> is zero is non-finite; on one-hot matrices
  \<open>inv(past_squared) @ joint_counts\<close> then fails with the LinAlgError of \<open>inv\<close>.
\<close>

theorem zero_marginal_raises_nothing:
  fixes pasts :: "'a list" and futs :: "'b list"
  shows "(length pasts = length futs \<longrightarrow>
      (\<exists>P F J M. transform (fit_alphabet pasts) pasts = Inr P \<and>
         transform (fit_alphabet futs) futs = Inr F \<and> joint_counts P F = Inr J \<and>
         list_all (\<lambda>c. 1 \<le> c) (sum_axis1 J) \<and> morphs P F = Inr (finite_array M))) \<and>
    (nrows past_vecs = nrows fut_vecs \<longrightarrow>
      (\<exists>J R. joint_counts past_vecs fut_vecs = Inr J \<and> morphs past_vecs fut_vecs = Inr R \<and>
         (\<forall>i<ncols past_vecs. sum_axis1 J ! i = 0 \<longrightarrow>
            (\<forall>j<ncols fut_vecs. entry R i j = NonFinite)))) \<and>
    (one_hot_array past_vecs \<and> one_hot_array fut_vecs \<and>
     joint_counts past_vecs fut_vecs = Inr J' \<and> i < ncols past_vecs \<and> sum_axis1 J' ! i = 0 \<and>
     past_squared past_vecs = Inr S \<and> inv_contract linalg_inv S \<longrightarrow>
       new_morphs linalg_inv past_vecs fut_vecs = Inl LinAlgError)"
proof (intro conjI impI)
  assume len: "length pasts = length futs"
  from transform_fitted [of pasts] obtain P where P: "transform (fit_alphabet pasts) pasts = Inr P"
    "one_hot_array P" "all_words_observed P" "nrows P = length pasts"
    by blast
  from transform_fitted [of futs] obtain F where F: "transform (fit_alphabet futs) futs = Inr F"
    "one_hot_array F" "nrows F = length futs"
    by blast
  from len P(4) F(3) have eq: "nrows P = nrows F"
    by simp
  from p_counts_marginal [OF eq] obtain J where J: "joint_counts P F = Inr J"
    "length (sum_axis1 J) = ncols P" "\<forall>i<ncols P. sum_axis1 J ! i = marginal P F i"
    by blast
  have "list_all (\<lambda>c. 1 \<le> c) (sum_axis1 J)"
    using J(2,3) marginal_pos [OF P(2) F(2) eq P(3)] by (simp add: list_all_length)
  with P(1) F(1) J(1) morphs_observed [OF P(2) F(2) eq P(3)]
  show "\<exists>P F J M. transform (fit_alphabet pasts) pasts = Inr P \<and>
         transform (fit_alphabet futs) futs = Inr F \<and> joint_counts P F = Inr J \<and>
         list_all (\<lambda>c. 1 \<le> c) (sum_axis1 J) \<and> morphs P F = Inr (finite_array M)"
    by blast
next
  assume eq: "nrows past_vecs = nrows fut_vecs"
  from p_counts_marginal [OF eq] obtain J where J: "joint_counts past_vecs fut_vecs = Inr J"
    "\<forall>i<ncols past_vecs. sum_axis1 J ! i = marginal past_vecs fut_vecs i"
    by blast
  with morphs_eval [OF eq]
  show "\<exists>J R. joint_counts past_vecs fut_vecs = Inr J \<and> morphs past_vecs fut_vecs = Inr R \<and>
         (\<forall>i<ncols past_vecs. sum_axis1 J ! i = 0 \<longrightarrow>
            (\<forall>j<ncols fut_vecs. entry R i j = NonFinite))"
    by simp
next
  assume h: "one_hot_array past_vecs \<and> one_hot_array fut_vecs \<and>
     joint_counts past_vecs fut_vecs = Inr J' \<and> i < ncols past_vecs \<and> sum_axis1 J' ! i = 0 \<and>
     past_squared past_vecs = Inr S \<and> inv_contract linalg_inv S"
  then have eq: "nrows past_vecs = nrows fut_vecs"
    by (auto simp: joint_counts_def matmul_def transpose_np_def split: if_splits)
  from p_counts_marginal [OF eq] h have "marginal past_vecs fut_vecs i = 0"
    by auto
  with h eq have "\<And>t. t < nrows past_vecs \<Longrightarrow> entry past_vecs t i = 0"
    using zero_marginal_column [of past_vecs fut_vecs i] by blast
  with h have "\<not> (\<exists>B. is_inverse S B)"
    using zero_column_no_inverse [of past_vecs S i] by blast
  with h have "linalg_inv S = Inl LinAlgError"
    by (auto simp: inv_contract_def split: sum.splits)
  with h show "new_morphs linalg_inv past_vecs fut_vecs = Inl LinAlgError"
    by (simp add: new_morphs_def)
qed

text \<open>
  As stated, the property fails on one window encoded against an alphabet of two past
  words: the second word has marginal count zero, and \<open>morphs\<close> returns an array.
\<close>

theorem zero_marginal_raises_nothing_counterexample:
  "transform [''ab'', ''ba''] [''ab''] = Inr P_unseen \<and> transform [''a''] [''a''] = Inr F_one \<and>
   joint_counts P_unseen F_one = Inr (NDArray 2 1 [[1], [0]]) \<and>
   sum_axis1 (NDArray 2 1 [[1], [0]]) = [1, 0] \<and>
   morphs P_unseen F_one = Inr (NDArray 2 1 [[Finite 1], [NonFinite]])"
  by code_simp

theorem zero_marginal_raises_nothing_witness:
  "length [''ab'', ''ba'', ''ab''] = length [''a'', ''a'', ''b''] \<and>
   transform (fit_alphabet [''ab'', ''ba'', ''ab'']) [''ab'', ''ba'', ''ab''] = Inr P_ex \<and>
   transform (fit_alphabet [''a'', ''a'', ''b'']) [''a'', ''a'', ''b''] = Inr F_ex \<and>
   sum_axis1 (projr (joint_counts P_ex F_ex)) = [2, 1] \<and>
   one_hot_array P_unseen \<and> one_hot_array F_one \<and> nrows P_unseen = nrows F_one \<and>
   joint_counts P_unseen F_one = Inr (NDArray 2 1 [[1], [0]]) \<and>
   sum_axis1 (NDArray 2 1 [[1], [0]]) ! 1 = 0 \<and>
   past_squared P_unseen = Inr (NDArray 2 2 [[1, 0], [0, 0]]) \<and>
   inv_contract inv_diagonal (NDArray 2 2 [[1, 0], [0, 0]]) \<and>
   entry (projr (morphs P_unseen F_one)) 1 0 = NonFinite \<and>
   new_morphs inv_diagonal P_unseen F_one = Inl LinAlgError"
proof -
  let ?S = "NDArray 2 2 [[1, 0], [0, 0]] :: real ndarray"
  let ?J = "NDArray 2 1 [[1], [0]] :: real ndarray"
  have hot: "one_hot_array P_unseen" "one_hot_array F_one" "nrows P_unseen = nrows F_one"
    and i: "(1::nat) < ncols P_unseen" "(0::nat) < ncols F_one"
    and J: "joint_counts P_unseen F_one = Inr ?J" and z: "sum_axis1 ?J ! 1 = 0"
    and S: "past_squared P_unseen = Inr ?S"
    by code_simp+
  have "entry P_unseen t 1 = 0" if "t < nrows P_unseen" for t
    using that by (simp add: P_unseen_def entry_def)
  from zero_column_no_inverse [OF S i(1) this] have "\<not> (\<exists>B. is_inverse ?S B)"
    by simp
  moreover have "inv_diagonal ?S = Inl LinAlgError"
    by code_simp
  ultimately have inv: "inv_contract inv_diagonal ?S"
    by (simp add: inv_contract_def)
  have len: "length [''ab'', ''ba'', ''ab''] = length [''a'', ''a'', ''b'']"
    by simp
  note inst = zero_marginal_raises_nothing [of "[''ab'', ''ba'', ''ab'']" "[''a'', ''a'', ''b'']"
      P_unseen F_one ?J 1 ?S inv_diagonal]
  from inst hot i J z S inv have a: "new_morphs inv_diagonal P_unseen F_one = Inl LinAlgError"
    by blast
  from inst hot(3) obtain J1 R where "joint_counts P_unseen F_one = Inr J1"
    and R: "morphs P_unseen F_one = Inr R"
    and "\<forall>i<ncols P_unseen. sum_axis1 J1 ! i = 0 \<longrightarrow> (\<forall>j<ncols F_one. entry R i j = NonFinite)"
    by blast
  with i z J have "entry R 1 0 = NonFinite"
    by auto
  with R have b: "entry (projr (morphs P_unseen F_one)) 1 0 = NonFinite"
    by simp
  have c: "transform (fit_alphabet [''ab'', ''ba'', ''ab'']) [''ab'', ''ba'', ''ab''] = Inr P_ex"
    "transform (fit_alphabet [''a'', ''a'', ''b'']) [''a'', ''a'', ''b''] = Inr F_ex"
    "sum_axis1 (projr (joint_counts P_ex F_ex)) = [2, 1]"
    by code_simp+
  from len c hot J z S inv b a show ?thesis
    by simp
qed

section \<open>Cross-validation: facts\<close>



lemma length_fold_sizes [simp]: "length (fold_sizes n F) = F"
  by (simp add: fold_sizes_def)



















end
